theory Spec2Isabelle
  imports Main
begin

section \<open>Text substitution as rebuild.py uses it\<close>

text \<open>
  The paper's build script \<^verbatim>\<open>papers/221_jessurun/rebuild.py\<close> rewrites LaTeX section files
  into reStructuredText with a table of regular expressions, each applied to the whole file
  with \<^verbatim>\<open>re.sub(pattern, replacement, file_text, flags=re.MULTILINE)\<close>. The patterns use
  a small part of Python's regular expressions: literal text, \<^verbatim>\<open>.*\<close> and \<^verbatim>\<open>.*?\<close> (where
  \<^verbatim>\<open>.\<close> is any character but a newline), \<^verbatim>\<open>^\<close>, alternation, an optional group and
  capturing groups. They are embedded as a datatype with a backtracking matcher that tries
  the alternatives in the order of Python's matcher. A text is a \<^typ>\<open>string\<close>, one
  \<^typ>\<open>char\<close> for each character of the Python string.

  The backslash, the newline and the double quote have no place in a string literal of the
  logic and are written as character codes.
\<close>

abbreviation BSL :: char where "BSL \<equiv> CHR 0x5C"
abbreviation NL :: char where "NL \<equiv> CHR 0x0A"
abbreviation DQ :: char where "DQ \<equiv> CHR 0x22"

text \<open>
  \<open>Lit s\<close> is the literal text \<open>s\<close>, \<open>AnyStar\<close> is \<^verbatim>\<open>.*\<close>, \<open>AnyLazy\<close> is \<^verbatim>\<open>.*?\<close>,
  \<open>Bol\<close> is \<^verbatim>\<open>^\<close> under \<^verbatim>\<open>re.MULTILINE\<close>, \<open>Seq\<close> is concatenation, \<open>Alt\<close> is
  \<^verbatim>\<open>a|b\<close>, \<open>Opt\<close> is the greedy \<^verbatim>\<open>a?\<close> and \<open>Grp\<close> is a capturing group.
\<close>

datatype regex = Lit string | AnyStar | AnyLazy | Bol
  | Seq regex regex | Alt regex regex | Opt regex | Grp regex

text \<open>
  A matcher state is the flag "the position is at the start of a line", the text from the
  position on, and the groups captured so far (\<open>None\<close> for a group that took no part in the
  match, as \<^verbatim>\<open>match.groups()\<close> reports it). The continuation \<open>k\<close> stands for the rest of the
  pattern; a failing continuation makes the matcher backtrack.
\<close>

type_synonym groups = "string option list"
type_synonym mstate = "bool \<times> string \<times> groups"

fun starts_with :: "string \<Rightarrow> string \<Rightarrow> bool" where
  "starts_with [] text = True"
| "starts_with (p # ps) [] = False"
| "starts_with (p # ps) (c # cs) = (p = c \<and> starts_with ps cs)"

fun ngroups :: "regex \<Rightarrow> nat" where
  "ngroups (Seq a b) = ngroups a + ngroups b"
| "ngroups (Alt a b) = ngroups a + ngroups b"
| "ngroups (Opt a) = ngroups a"
| "ngroups (Grp a) = Suc (ngroups a)"
| "ngroups _ = 0"

fun any_greedy :: "(mstate \<Rightarrow> 'r option) \<Rightarrow> bool \<Rightarrow> string \<Rightarrow> groups \<Rightarrow> 'r option" where
  "any_greedy k bol [] gs = k (bol, [], gs)"
| "any_greedy k bol (c # cs) gs =
     (if c = NL then k (bol, c # cs, gs)
      else (case any_greedy k False cs gs of
              Some r \<Rightarrow> Some r
            | None \<Rightarrow> k (bol, c # cs, gs)))"

fun any_lazy :: "(mstate \<Rightarrow> 'r option) \<Rightarrow> bool \<Rightarrow> string \<Rightarrow> groups \<Rightarrow> 'r option" where
  "any_lazy k bol [] gs = k (bol, [], gs)"
| "any_lazy k bol (c # cs) gs =
     (case k (bol, c # cs, gs) of
        Some r \<Rightarrow> Some r
      | None \<Rightarrow> if c = NL then None else any_lazy k False cs gs)"

fun rmatch :: "regex \<Rightarrow> (mstate \<Rightarrow> 'r option) \<Rightarrow> mstate \<Rightarrow> 'r option" where
  "rmatch (Lit s) k (bol, text, gs) =
     (if starts_with s text
      then k (if s = [] then bol else last s = NL, drop (length s) text, gs)
      else None)"
| "rmatch AnyStar k (bol, text, gs) = any_greedy k bol text gs"
| "rmatch AnyLazy k (bol, text, gs) = any_lazy k bol text gs"
| "rmatch Bol k (bol, text, gs) = (if bol then k (bol, text, gs) else None)"
| "rmatch (Seq a b) k st = rmatch a (rmatch b k) st"
| "rmatch (Alt a b) k (bol, text, gs) =
     (case rmatch a (\<lambda>(bol', text', gs'). k (bol', text', gs' @ replicate (ngroups b) None))
             (bol, text, gs) of
        Some r \<Rightarrow> Some r
      | None \<Rightarrow> rmatch b k (bol, text, gs @ replicate (ngroups a) None))"
| "rmatch (Opt a) k (bol, text, gs) =
     (case rmatch a k (bol, text, gs) of
        Some r \<Rightarrow> Some r
      | None \<Rightarrow> k (bol, text, gs @ replicate (ngroups a) None))"
| "rmatch (Grp a) k (bol, text, gs) =
     rmatch a (\<lambda>(bol', text', gs').
                 k (bol', text', gs'[length gs := Some (take (length text - length text') text)]))
       (bol, text, gs @ [None])"

text \<open>\<^verbatim>\<open>pattern.match\<close> at one position: the state after the match, if there is one.\<close>

definition re_match :: "regex \<Rightarrow> bool \<Rightarrow> string \<Rightarrow> mstate option" where
  "re_match pat bol text = rmatch pat Some (bol, text, [])"

text \<open>
  A match object: \<open>group0\<close> is the matched text, \<open>groups\<close> is \<^verbatim>\<open>match.groups()\<close>. A replacement
  is a template with group references (\<open>G n\<close> refers to group \<open>n\<close>) or a function of the match; the
  function \<^verbatim>\<open>footnote_replace\<close> appends to the list \<^verbatim>\<open>footnotes\<close> of its closure, so every
  replacement takes that list and returns it.
\<close>

record match =
  group0 :: string
  groups :: groups

datatype tpart = T string | G nat

fun group_text :: "match \<Rightarrow> nat \<Rightarrow> string" where
  "group_text m 0 = group0 m"
| "group_text m (Suc n) =
     (if n < length (groups m) then (case groups m ! n of Some s \<Rightarrow> s | None \<Rightarrow> []) else [])"

fun expand :: "tpart list \<Rightarrow> match \<Rightarrow> string" where
  "expand [] m = []"
| "expand (T s # ps) m = s @ expand ps m"
| "expand (G n # ps) m = group_text m n @ expand ps m"

datatype repl = Template "tpart list" | Callback "match \<Rightarrow> string list \<Rightarrow> string \<times> string list"

fun run_repl :: "repl \<Rightarrow> match \<Rightarrow> string list \<Rightarrow> string \<times> string list" where
  "run_repl (Template t) m fns = (expand t m, fns)"
| "run_repl (Callback f) m fns = f m fns"

text \<open>
  \<^verbatim>\<open>re.sub\<close>: the leftmost match from the current position on is replaced and the search
  goes on behind it; where nothing matches, the character is copied. No pattern of the
  table matches the empty text; for completeness an empty match inserts its replacement
  and the search moves one character on.
\<close>

function re_sub :: "regex \<Rightarrow> repl \<Rightarrow> bool \<Rightarrow> string \<Rightarrow> string list \<Rightarrow> string \<times> string list" where
  "re_sub pat rp bol text fns =
     (case re_match pat bol text of
        Some (bol', rest, gs) \<Rightarrow>
          (if length rest < length text
           then (case run_repl rp \<lparr>group0 = take (length text - length rest) text, groups = gs\<rparr> fns of
                   (out, fns') \<Rightarrow>
                     (case re_sub pat rp bol' rest fns' of
                        (out', fns'') \<Rightarrow> (out @ out', fns'')))
           else (case run_repl rp \<lparr>group0 = [], groups = gs\<rparr> fns of
                   (out, fns') \<Rightarrow>
                     (case text of
                        [] \<Rightarrow> (out, fns')
                      | c # cs \<Rightarrow>
                          (case re_sub pat rp (c = NL) cs fns' of
                             (out', fns'') \<Rightarrow> (out @ c # out', fns'')))))
      | None \<Rightarrow>
          (case text of
             [] \<Rightarrow> ([], fns)
           | c # cs \<Rightarrow>
               (case re_sub pat rp (c = NL) cs fns of
                  (out', fns') \<Rightarrow> (c # out', fns'))))"
  by pat_completeness auto
termination
  by (relation "measure (\<lambda>(pat, rp, bol, text, fns). length text)") auto

declare re_sub.simps [simp del]


subsection \<open>The rule table of create_rst_sections\<close>

text \<open>
  \<^verbatim>\<open>command_regex(cmd, num_args) = r"\\" + cmd + r"\{(.*?)\}" * num_args\<close> and
  \<^verbatim>\<open>env_regex(env, begin, end)\<close>, whose assertion "at least one of begin or end" fails with
  \<open>None\<close>.
\<close>

fun seq_list :: "regex list \<Rightarrow> regex" where
  "seq_list [] = Lit []"
| "seq_list [r] = r"
| "seq_list (r # rs) = Seq r (seq_list rs)"

definition command_regex :: "string \<Rightarrow> nat \<Rightarrow> regex" where
  "command_regex cmd num_args =
     seq_list (Lit (BSL # cmd) # concat (replicate num_args [Lit ''{'', Grp AnyLazy, Lit ''}'']))"

definition env_regex :: "string \<Rightarrow> bool \<Rightarrow> bool \<Rightarrow> regex option" where
  "env_regex env begin end =
     (if \<not> (begin \<or> end) then None
      else Some (Seq (Lit [BSL])
             (Seq (if begin \<and> \<not> end then Lit ''begin''
                   else if end \<and> \<not> begin then Lit ''end''
                   else Grp (Alt (Lit ''begin'') (Lit ''end'')))
                  (Seq (Lit ''{'') (Seq (Lit env) (Lit ''}''))))))"

text \<open>
  \<^verbatim>\<open>str.replace(old, new)\<close>: every occurrence of \<open>old\<close>, from the left and without overlap.
\<close>

fun py_replace_go :: "string \<Rightarrow> string \<Rightarrow> nat \<Rightarrow> string \<Rightarrow> string" where
  "py_replace_go old new skip [] = []"
| "py_replace_go old new (Suc skip) (c # cs) = py_replace_go old new skip cs"
| "py_replace_go old new 0 (c # cs) =
     (if starts_with old (c # cs)
      then new @ py_replace_go old new (length old - 1) cs
      else c # py_replace_go old new 0 cs)"

definition py_replace :: "string \<Rightarrow> string \<Rightarrow> string \<Rightarrow> string" where
  "py_replace old new s =
     (if old = [] then new @ concat (map (\<lambda>c. c # new) s)
      else py_replace_go old new 0 s)"

definition sanitized_label :: "string \<Rightarrow> string" where
  "sanitized_label text = py_replace ''_'' [] (py_replace '':'' [] text)"

text \<open>
  The replacement functions. \<^verbatim>\<open>if groups[0]:\<close> holds for a group that took part in the match
  with a non-empty text. Group 2 of the heading and of the reference pattern takes part in
  every match, so the branch for its absence is never taken by the table.
\<close>

definition truthy :: "string option \<Rightarrow> bool" where
  "truthy g = (case g of None \<Rightarrow> False | Some s \<Rightarrow> s \<noteq> [])"

definition grp :: "match \<Rightarrow> nat \<Rightarrow> string option" where
  "grp m n = (if 0 < n \<and> n \<le> length (groups m) then groups m ! (n - 1) else None)"

definition section_replace :: "match \<Rightarrow> string" where
  "section_replace m =
     (case grp m 2 of
        Some section_name \<Rightarrow>
          section_name @ [NL] @
          replicate (length section_name) (if truthy (grp m 1) then CHR ''-'' else CHR ''='')
      | None \<Rightarrow> [])"

definition ref_replace :: "match \<Rightarrow> string" where
  "ref_replace m =
     (case grp m 2 of
        Some label \<Rightarrow>
          (if truthy (grp m 1)
           then ''Figure :ref:`'' @ sanitized_label label @ ''`''
           else '':ref:`'' @ sanitized_label label @ ''`'')
      | None \<Rightarrow> [])"

definition footnote_replace :: "match \<Rightarrow> string list \<Rightarrow> string \<times> string list" where
  "footnote_replace m footnotes =
     ('' [#]_'', footnotes @ [''.. [#] '' @ group_text m 1])"

definition label_replace :: "match \<Rightarrow> string" where
  "label_replace m =
     ''.. _'' @ sanitized_label (group_text m 2) @ [CHR '':'', NL, NL] @ group_text m 1"

definition pure_cb :: "(match \<Rightarrow> string) \<Rightarrow> repl" where
  "pure_cb f = Callback (\<lambda>m footnotes. (f m, footnotes))"

text \<open>
  The dictionary \<^verbatim>\<open>replace_spec\<close>, in the order of its entries, which is the order in which
  the loop applies them. Three of its keys have a name here: \<^verbatim>\<open>r"(.*)\\label\{(.*?)\}"\<close>,
  \<^verbatim>\<open>r"\\(sub)?section\{(.*?)\}"\<close> and \<^verbatim>\<open>r"\\(auto)?ref\{(.*?)\}"\<close>.
\<close>

definition label_pattern :: regex where
  "label_pattern =
     Seq (Grp AnyStar) (Seq (Lit (BSL # ''label{'')) (Seq (Grp AnyLazy) (Lit ''}'')))"

definition section_pattern :: regex where
  "section_pattern =
     Seq (Lit [BSL]) (Seq (Opt (Grp (Lit ''sub'')))
       (Seq (Lit ''section{'') (Seq (Grp AnyLazy) (Lit ''}''))))"

definition ref_pattern :: regex where
  "ref_pattern =
     Seq (Lit [BSL]) (Seq (Opt (Grp (Lit ''auto'')))
       (Seq (Lit ''ref{'') (Seq (Grp AnyLazy) (Lit ''}''))))"

definition replace_spec :: "(regex \<times> repl) list" where
  "replace_spec =
   [(command_regex ''cite'' 1, Template [T '':cite:`'', G 1, T ''`'']),
    (label_pattern, pure_cb label_replace),
    (section_pattern, pure_cb section_replace),
    (ref_pattern, pure_cb ref_replace),
    (command_regex ''emph'' 1, Template [T ''*'', G 1, T ''*'']),
    (command_regex ''texttt'' 1, Template [T ''``'', G 1, T ''``'']),
    (Grp (Seq (Lit (BSL # ''make'')) (Seq AnyStar (Lit ''Fig''))),
       Template [T (''.. raw:: latex'' @ [NL, NL] @ ''    ''), G 1]),
    (Seq (Lit ''``'') (Seq (Grp AnyLazy) (Lit [DQ])), Template [T [DQ], G 1, T [DQ]]),
    (Lit ''~'', Template [T '' '']),
    (Grp (Seq Bol (Seq (Lit ''%'') AnyStar)),
       Template [T ([NL] @ ''..'' @ [NL] @ ''    ''), G 1, T [NL]]),
    (command_regex ''href'' 2, Template [T ''`'', G 2, T '' <'', G 1, T ''>`_'']),
    (command_regex ''url'' 1, Template [T ''`'', G 1, T '' <'', G 1, T ''>`_'']),
    (command_regex ''footnote'' 1, Callback footnote_replace),
    (Seq (the (env_regex ''itemize'' True True)) (Lit [NL]), Template []),
    (Lit (BSL # ''item''), Template [T ''*'']),
    (the (env_regex ''lstlisting'' True False), Template [T ''```python'']),
    (the (env_regex ''lstlisting'' False True), Template [T ''```''])]"

fun apply_rules :: "(regex \<times> repl) list \<Rightarrow> string \<Rightarrow> string list \<Rightarrow> string \<times> string list" where
  "apply_rules [] file_text footnotes = (file_text, footnotes)"
| "apply_rules ((pattern, replacement) # rules) file_text footnotes =
     (case re_sub pattern replacement True file_text footnotes of
        (file_text', footnotes') \<Rightarrow> apply_rules rules file_text' footnotes')"

fun join :: "string \<Rightarrow> string list \<Rightarrow> string" where
  "join sep [] = []"
| "join sep [x] = x"
| "join sep (x # xs) = x @ sep @ join sep xs"

text \<open>
  The body of the loop over the section files: the footnote list is cleared, every rule is
  applied in turn, and the collected footnotes are appended behind two newlines.
\<close>

definition convert_text :: "string \<Rightarrow> string list \<Rightarrow> string \<times> string list" where
  "convert_text file_text footnotes =
     (case apply_rules replace_spec file_text [] of
        (file_text', footnotes') \<Rightarrow> (file_text' @ [NL, NL] @ join [NL] footnotes', footnotes'))"



text \<open>
  The way \<^verbatim>\<open>re.sub\<close> cuts a text, as a list of its own: the characters it copies and the
  matches it replaces, in the order of the text. \<open>found\<close> are the matches alone, as
  \<^verbatim>\<open>re.finditer\<close> lists them, and \<open>rebuild f\<close> puts the text together again with \<open>f m\<close> in
  the place of every match \<open>m\<close>.
\<close>

datatype piece = Copied char | Replaced match

function re_pieces :: "regex \<Rightarrow> bool \<Rightarrow> string \<Rightarrow> piece list" where
  "re_pieces pat bol text =
     (case re_match pat bol text of
        Some (bol', rest, gs) \<Rightarrow>
          (if length rest < length text
           then Replaced \<lparr>group0 = take (length text - length rest) text, groups = gs\<rparr>
                # re_pieces pat bol' rest
           else Replaced \<lparr>group0 = [], groups = gs\<rparr>
                # (case text of
                     [] \<Rightarrow> []
                   | c # cs \<Rightarrow> Copied c # re_pieces pat (c = NL) cs))
      | None \<Rightarrow>
          (case text of
             [] \<Rightarrow> []
           | c # cs \<Rightarrow> Copied c # re_pieces pat (c = NL) cs))"
  by pat_completeness auto
termination
  by (relation "measure (\<lambda>(pat, bol, text). length text)") auto

declare re_pieces.simps [simp del]

fun found :: "piece list \<Rightarrow> match list" where
  "found [] = []"
| "found (Copied c # ps) = found ps"
| "found (Replaced m # ps) = m # found ps"

fun rebuild :: "(match \<Rightarrow> string) \<Rightarrow> piece list \<Rightarrow> string" where
  "rebuild f [] = []"
| "rebuild f (Copied c # ps) = c # rebuild f ps"
| "rebuild f (Replaced m # ps) = f m @ rebuild f ps"

text \<open>\<^verbatim>\<open>str.count(sub)\<close>: the number of occurrences of \<open>sub\<close>, from the left and without overlap.\<close>

fun count_go :: "string \<Rightarrow> nat \<Rightarrow> string \<Rightarrow> nat" where
  "count_go sub skip [] = 0"
| "count_go sub (Suc skip) (c # cs) = count_go sub skip cs"
| "count_go sub 0 (c # cs) =
     (if starts_with sub (c # cs) then Suc (count_go sub (length sub - 1) cs)
      else count_go sub 0 cs)"

definition py_count :: "string \<Rightarrow> string \<Rightarrow> nat" where
  "py_count s sub = (if sub = [] then Suc (length s) else count_go sub 0 s)"

text \<open>
  A character that every match of a pattern contains, read off the pattern: a text without
  that character has no match.
\<close>

fun requires_char :: "regex \<Rightarrow> char \<Rightarrow> bool" where
  "requires_char (Lit s) c = (c \<in> set s)"
| "requires_char (Seq a b) c = (requires_char a c \<or> requires_char b c)"
| "requires_char (Alt a b) c = (requires_char a c \<and> requires_char b c)"
| "requires_char (Grp a) c = requires_char a c"
| "requires_char _ c = False"

text \<open>
  The characters that a rule of the table reads in a text without commands, or that end
  the argument of a command: a text without them is plain.
\<close>

definition markup_chars :: "char list" where
  "markup_chars = [BSL, DQ, CHR ''~'', CHR ''%'', CHR ''}'', NL]"

text \<open>
  The loop over \<^verbatim>\<open>sections/*.tex\<close>: a file is its name and its text, and the loop hands the
  footnote list of one file to the next, as the closure does. The result is the list of the
  files written to \<^verbatim>\<open>sections_rst\<close>.
\<close>

fun rst_sections_loop ::
  "(string \<times> string) list \<Rightarrow> string list \<Rightarrow> (string \<times> string) list \<times> string list" where
  "rst_sections_loop [] footnotes = ([], footnotes)"
| "rst_sections_loop ((name, file_text) # files) footnotes =
     (case convert_text file_text footnotes of
        (out, footnotes') \<Rightarrow>
          (case rst_sections_loop files footnotes' of
             (written, footnotes'') \<Rightarrow>
               ((py_replace ''.tex'' ''.rst'' name, out) # written, footnotes'')))"

definition create_rst_sections :: "(string \<times> string) list \<Rightarrow> (string \<times> string) list" where
  "create_rst_sections files = fst (rst_sections_loop files [])"

section \<open>Processes, environment and file system\<close>

text \<open>
  A path is the list of its components below the root of the file system, so the root is
  the empty list and is its own parent, as \<^verbatim>\<open>Path("/").parent\<close> is.
\<close>

type_synonym path = "string list"

definition parent :: "path \<Rightarrow> path" where
  "parent p = butlast p"

definition joinpath :: "path \<Rightarrow> string \<Rightarrow> path" where
  "joinpath p name = p @ [name]"

definition path_str :: "path \<Rightarrow> string" where
  "path_str p = (if p = [] then ''/'' else concat (map (\<lambda>c. ''/'' @ c) p))"

text \<open>
  What the script reads from its surroundings: which paths exist, the environment
  variables, which program names the system can start, and what a started program prints
  and returns. \<open>paper_dir\<close> is \<^verbatim>\<open>Path(__file__).resolve().parent\<close>.
\<close>

record world =
  path_exists :: "path \<Rightarrow> bool"
  isdir :: "path \<Rightarrow> bool"
  isfile :: "path \<Rightarrow> bool"
  environ :: "string \<Rightarrow> string option"
  programs :: "string list"
  stdout_of :: "string list \<Rightarrow> string"
  returncode_of :: "string list \<Rightarrow> int"
  sys_executable :: string
  paper_dir :: path

datatype error =
    ValueError string
  | FileNotFoundError string
  | CalledProcessError int "string list"
  | IndexError
  | SystemExit int

text \<open>
  What the script does to its surroundings, in order: a line printed, a process started
  with its argument vector and working directory, a directory tree or a file removed.
\<close>

datatype event =
    Print string
  | Spawn "string list" "path option"
  | Rmtree path
  | Remove path

type_synonym 'a io = "event list \<times> (error + 'a)"

definition bind_io :: "'a io \<Rightarrow> ('a \<Rightarrow> 'b io) \<Rightarrow> 'b io" where
  "bind_io m f =
     (case m of
        (tr, Inl e) \<Rightarrow> (tr, Inl e)
      | (tr, Inr x) \<Rightarrow> (case f x of (tr', r) \<Rightarrow> (tr @ tr', r)))"

text \<open>
  \<^verbatim>\<open>subprocess.run(args, shell=..., cwd=..., check=..., capture_output=...)\<close> with a sequence
  for \<open>args\<close>, as the library documents it for POSIX: without a shell the first item is the
  program to execute and the sequence is its argument vector; with \<^verbatim>\<open>shell=True\<close> the
  argument vector is \<^verbatim>\<open>["/bin/sh", "-c"]\<close> followed by the sequence, so that the first item
  is the command line of the shell and further items are the shell's own positional
  parameters. A program that cannot be found raises \<^verbatim>\<open>FileNotFoundError\<close> and nothing is
  started; \<^verbatim>\<open>check=True\<close> raises \<^verbatim>\<open>CalledProcessError\<close> on a non-zero return code.
\<close>

record call =
  args :: "string list"
  shell :: bool
  cwd :: "path option"
  check :: bool
  capture_output :: bool

record completed =
  returncode :: int
  stdout :: string

definition argv_of :: "call \<Rightarrow> string list" where
  "argv_of c = (if shell c then [''/bin/sh'', ''-c''] @ args c else args c)"

definition subprocess_run :: "world \<Rightarrow> call \<Rightarrow> completed io" where
  "subprocess_run w c =
     (case argv_of c of
        [] \<Rightarrow> ([], Inl IndexError)
      | prog # _ \<Rightarrow>
          if prog \<notin> set (programs w) then ([], Inl (FileNotFoundError prog))
          else if check c \<and> returncode_of w (argv_of c) \<noteq> 0
          then ([Spawn (argv_of c) (cwd c)],
                Inl (CalledProcessError (returncode_of w (argv_of c)) (args c)))
          else ([Spawn (argv_of c) (cwd c)],
                Inr \<lparr>returncode = returncode_of w (argv_of c),
                     stdout = stdout_of w (argv_of c)\<rparr>))"

definition print :: "string \<Rightarrow> unit io" where
  "print s = ([Print s], Inr ())"

text \<open>\<^verbatim>\<open>_print_and_run(*cmd, **kwargs)\<close>: the tuple \<open>cmd\<close> is printed and run as it is.\<close>

definition print_and_run :: "world \<Rightarrow> call \<Rightarrow> completed io" where
  "print_and_run w c = bind_io (print (join '' '' (args c))) (\<lambda>_. subprocess_run w c)"

text \<open>
  The loop of \<^verbatim>\<open>_find_root_path\<close> has no exit but the marker directory: \<open>None\<close> is the walk
  that never ends.
\<close>

partial_function (option) find_git_dir :: "(path \<Rightarrow> bool) \<Rightarrow> path \<Rightarrow> path option" where
  "find_git_dir ex cur_rootpath =
     (if \<not> ex (joinpath cur_rootpath ''.git'')
      then find_git_dir ex (parent cur_rootpath)
      else Some cur_rootpath)"

definition find_root_path :: "world \<Rightarrow> path io option" where
  "find_root_path w =
     (case find_git_dir (path_exists w) (paper_dir w) of
        None \<Rightarrow> None
      | Some cur_rootpath \<Rightarrow>
          Some (if \<not> path_exists w (joinpath cur_rootpath ''publisher'')
                then bind_io (print (''invalid root found: '' @ path_str cur_rootpath))
                       (\<lambda>_. ([], Inl (SystemExit 1)))
                else bind_io (print (''Found rootpath: '' @ path_str cur_rootpath))
                       (\<lambda>_. ([], Inr cur_rootpath))))"

text \<open>\<^verbatim>\<open>str.split()\<close> without arguments: the words between runs of white space.\<close>

definition is_space :: "char \<Rightarrow> bool" where
  "is_space c \<longleftrightarrow>
     c \<in> set [CHR '' '', CHR 0x09, NL, CHR 0x0B, CHR 0x0C, CHR 0x0D,
              CHR 0x1C, CHR 0x1D, CHR 0x1E, CHR 0x1F, CHR 0x85, CHR 0xA0]"

fun split_go :: "string \<Rightarrow> string \<Rightarrow> string list" where
  "split_go cur [] = (if cur = [] then [] else [cur])"
| "split_go cur (c # cs) =
     (if is_space c then (if cur = [] then split_go [] cs else cur # split_go [] cs)
      else split_go (cur @ [c]) cs)"

definition py_split :: "string \<Rightarrow> string list" where
  "py_split s = split_go [] s"

definition ensure_overleaf_remote_exists :: "world \<Rightarrow> path \<Rightarrow> unit io" where
  "ensure_overleaf_remote_exists w rootpath =
     bind_io (subprocess_run w \<lparr>args = [''git'', ''remote''], shell = False,
                cwd = Some rootpath, check = False, capture_output = True\<rparr>)
       (\<lambda>r. if ''overleaf'' \<in> set (py_split (stdout r)) then ([], Inr ())
             else (case environ w ''OVERLEAF_CURRENT_REPO'' of
                     None \<Rightarrow> ([], Inl (ValueError ''Must fetch from overleaf, but remote was not set!''))
                   | Some repo_name \<Rightarrow>
                       if repo_name = []
                       then ([], Inl (ValueError ''Must fetch from overleaf, but remote was not set!''))
                       else bind_io (print ''Overleaf remote didn't already exist, adding now'')
                              (\<lambda>_. bind_io
                                 (print_and_run w
                                    \<lparr>args = [''git remote add overleaf '' @ repo_name],
                                     shell = False, cwd = None, check = False,
                                     capture_output = False\<rparr>)
                                 (\<lambda>_. ([], Inr ())))))"

text \<open>\<^verbatim>\<open>os.path.relpath(path, start)\<close> for two absolute paths.\<close>

fun common_len :: "path \<Rightarrow> path \<Rightarrow> nat" where
  "common_len (x # xs) (y # ys) = (if x = y then Suc (common_len xs ys) else 0)"
| "common_len _ _ = 0"

definition relpath :: "path \<Rightarrow> path \<Rightarrow> string" where
  "relpath p start =
     (case replicate (length start - common_len p start) ''..'' @ drop (common_len p start) p of
        [] \<Rightarrow> ''.''
      | rel_list \<Rightarrow> join ''/'' rel_list)"

fun mirror_paths :: "world \<Rightarrow> path \<Rightarrow> string \<Rightarrow> string list \<Rightarrow> unit io" where
  "mirror_paths w rootpath worktree_dir [] = ([], Inr ())"
| "mirror_paths w rootpath worktree_dir (pull_path # pull_paths) =
     bind_io (if isdir w (joinpath (paper_dir w) pull_path)
              then ([Rmtree (joinpath (paper_dir w) pull_path)], Inr ())
              else if isfile w (joinpath (paper_dir w) pull_path)
              then ([Remove (joinpath (paper_dir w) pull_path)], Inr ())
              else ([], Inr ()))
       (\<lambda>_. bind_io
          (print_and_run w
             \<lparr>args = [''git'', ''--work-tree='' @ worktree_dir, ''checkout'', ''overleaf/master'',
                      ''--'', pull_path],
              shell = False, cwd = Some rootpath, check = True, capture_output = False\<rparr>)
          (\<lambda>_. mirror_paths w rootpath worktree_dir pull_paths))"

definition sync_overleaf :: "world \<Rightarrow> path \<Rightarrow> unit io" where
  "sync_overleaf w rootpath =
     bind_io (ensure_overleaf_remote_exists w rootpath)
       (\<lambda>_. bind_io
          (print_and_run w \<lparr>args = [''git'', ''fetch'', ''overleaf''], shell = False,
             cwd = Some rootpath, check = True, capture_output = True\<rparr>)
          (\<lambda>output. mirror_paths w rootpath (relpath (paper_dir w) rootpath)
             [''figures'', ''sections'', ''references.bib'', ''main.tex'']))"

definition paper_id :: string where
  "paper_id = ''221_jessurun''"

definition build_paper :: "world \<Rightarrow> path \<Rightarrow> unit io" where
  "build_paper w rootpath =
     bind_io (subprocess_run w
                \<lparr>args = [sys_executable w,
                         path_str (rootpath @ [''publisher'', ''build_paper.py'']),
                         ''papers/'' @ paper_id],
                 shell = True, cwd = Some rootpath, check = False, capture_output = False\<rparr>)
       (\<lambda>_. bind_io
          (subprocess_run w \<lparr>args = [''git'', ''reset''], shell = False, cwd = Some rootpath,
             check = False, capture_output = True\<rparr>)
          (\<lambda>_. ([], Inr ())))"

text \<open>
  A sample of the surroundings on a POSIX system: a repository \<^verbatim>\<open>/repo\<close> with the publisher
  directory, the paper in \<^verbatim>\<open>/repo/papers/221_jessurun\<close>, \<^verbatim>\<open>git\<close> installed, and the output of
  \<^verbatim>\<open>git remote\<close> and the variable \<^verbatim>\<open>OVERLEAF_CURRENT_REPO\<close> as given.
\<close>

definition posix_world :: "string \<Rightarrow> string option \<Rightarrow> world" where
  "posix_world remotes repo =
     \<lparr>path_exists = (\<lambda>p. p = [''repo'', ''.git''] \<or> p = [''repo'', ''publisher'']),
      isdir = (\<lambda>p. False),
      isfile = (\<lambda>p. False),
      environ = (\<lambda>v. if v = ''OVERLEAF_CURRENT_REPO'' then repo else None),
      programs = [''/bin/sh'', ''git'', ''/usr/bin/python3''],
      stdout_of = (\<lambda>argv. if argv = [''git'', ''remote''] then remotes else []),
      returncode_of = (\<lambda>argv. 0),
      sys_executable = ''/usr/bin/python3'',
      paper_dir = [''repo'', ''papers'', ''221_jessurun'']\<rparr>"

section \<open>Properties\<close>

subsection \<open>The matcher and the substitution\<close>

lemma starts_with_iff: "starts_with s t \<longleftrightarrow> (\<exists>r. t = s @ r)"
  by (induction s t rule: starts_with.induct) auto

lemma starts_with_append [simp]: "starts_with s (s @ t)"
  by (simp add: starts_with_iff)

lemma re_sub_Nil:
  "re_match pat bol [] = None \<Longrightarrow> re_sub pat rp bol [] fns = ([], fns)"
  by (simp add: re_sub.simps)

lemma re_sub_skip:
  "re_match pat bol (c # cs) = None \<Longrightarrow>
   re_sub pat rp bol (c # cs) fns =
     (case re_sub pat rp (c = NL) cs fns of (out', fns') \<Rightarrow> (c # out', fns'))"
  by (simp add: re_sub.simps [of pat rp bol "c # cs"])

lemma re_sub_match:
  "re_match pat bol text = Some (bol', rest, gs) \<Longrightarrow> length rest < length text \<Longrightarrow>
   re_sub pat rp bol text fns =
     (case run_repl rp \<lparr>group0 = take (length text - length rest) text, groups = gs\<rparr> fns of
        (out, fns') \<Rightarrow>
          (case re_sub pat rp bol' rest fns' of (out', fns'') \<Rightarrow> (out @ out', fns'')))"
  by (simp add: re_sub.simps [of pat rp bol "text"])

lemma run_repl_pure_cb [simp]: "run_repl (pure_cb f) m fns = (f m, fns)"
  by (simp add: pure_cb_def)

lemma re_sub_pure:
  assumes pure: "\<And>m fns. run_repl rp m fns = (g m, fns)"
  shows "re_sub pat rp bol t fns = (fst (re_sub pat rp bol t []), fns)"
proof (induction "length t" arbitrary: t bol rule: less_induct)
  case less
  show ?case
  proof (cases "re_match pat bol t")
    case None
    show ?thesis
    proof (cases t)
      case Nil
      with None show ?thesis by (simp add: re_sub_Nil)
    next
      case (Cons c cs)
      with less [of cs "c = NL"] have "re_sub pat rp (c = NL) cs fns = (fst (re_sub pat rp (c = NL) cs []), fns)"
        by simp
      with None Cons show ?thesis
        by (simp add: re_sub_skip split: prod.split)
    qed
  next
    case (Some st)
    obtain bol' rest gs where st: "st = (bol', rest, gs)"
      by (cases st)
    show ?thesis
    proof (cases "length rest < length t")
      case True
      with less [of rest bol'] have "re_sub pat rp bol' rest fns = (fst (re_sub pat rp bol' rest []), fns)"
        by simp
      with Some st True show ?thesis
        by (simp add: re_sub_match pure split: prod.split)
    next
      case False
      show ?thesis
      proof (cases t)
        case Nil
        with Some st False show ?thesis
          by (simp add: re_sub.simps [of pat rp bol "[]"] pure)
      next
        case (Cons c cs)
        with less [of cs "c = NL"] have "re_sub pat rp (c = NL) cs fns = (fst (re_sub pat rp (c = NL) cs []), fns)"
          by simp
        with Some st False Cons show ?thesis
          by (simp add: re_sub.simps [of pat rp bol "c # cs"] pure split: prod.split)
      qed
    qed
  qed
qed

lemma re_sub_template: "re_sub pat (Template tm) bol t fns = (fst (re_sub pat (Template tm) bol t []), fns)"
  by (rule re_sub_pure [where g = "expand tm"]) simp

lemma re_sub_pure_cb: "re_sub pat (pure_cb f) bol t fns = (fst (re_sub pat (pure_cb f) bol t []), fns)"
  by (rule re_sub_pure [where g = f]) simp

lemma any_lazy_found:
  assumes "NL \<notin> set body"
    and "\<And>i. i < length body \<Longrightarrow> k (bol \<and> i = 0, drop i body @ rest, gs) = None"
    and "k (bol \<and> body = [], rest, gs) = Some r"
  shows "any_lazy k bol (body @ rest) gs = Some r"
  using assms
proof (induction body arbitrary: bol)
  case Nil
  then show ?case by (cases rest) simp_all
next
  case (Cons c body)
  from Cons.prems(2) [of 0] have "k (bol, c # body @ rest, gs) = None" by simp
  moreover have "any_lazy k False (body @ rest) gs = Some r"
  proof (rule Cons.IH)
    show "NL \<notin> set body" using Cons.prems(1) by simp
    show "k (False \<and> i = 0, drop i body @ rest, gs) = None" if "i < length body" for i
      using Cons.prems(2) [of "Suc i"] that by simp
    show "k (False \<and> body = [], rest, gs) = Some r"
      using Cons.prems(3) by simp
  qed
  ultimately show ?case using Cons.prems(1) by auto
qed

lemma grp_lazy_brace:
  assumes "CHR ''}'' \<notin> set body" and "NL \<notin> set body"
  shows "rmatch (Grp AnyLazy) (rmatch (Lit ''}'') Some) (bol, body @ CHR ''}'' # rest, gs)
         = Some (False, rest, gs @ [Some body])"
proof -
  let ?T = "body @ CHR ''}'' # rest"
  let ?k = "\<lambda>(bol', text', gs').
     rmatch (Lit ''}'') Some
       (bol', text', gs'[length gs := Some (take (length ?T - length text') ?T)])"
  have "any_lazy ?k bol (body @ CHR ''}'' # rest) (gs @ [None]) = Some (False, rest, gs @ [Some body])"
  proof (rule any_lazy_found)
    show "NL \<notin> set body" by fact
    show "?k (bol \<and> i = 0, drop i body @ CHR ''}'' # rest, gs @ [None]) = None"
      if "i < length body" for i
    proof -
      from that have "drop i body = body ! i # drop (Suc i) body"
        by (simp add: Cons_nth_drop_Suc)
      moreover from that assms(1) have "body ! i \<noteq> CHR ''}''"
        by (metis nth_mem)
      ultimately show ?thesis by simp
    qed
    show "?k (bol \<and> body = [], CHR ''}'' # rest, gs @ [None]) = Some (False, rest, gs @ [Some body])"
      by simp
  qed
  then show ?thesis by simp
qed

lemma grp_lit:
  "rmatch (Grp (Lit s)) k (bol, t, gs) =
     (if starts_with s t
      then k (if s = [] then bol else last s = NL, drop (length s) t, gs @ [Some s])
      else None)"
  by (auto simp: starts_with_iff)

lemma any_greedy_fails:
  assumes "\<And>b' t' gs'. c \<notin> set t' \<Longrightarrow> k (b', t', gs') = None" and "c \<notin> set t"
  shows "any_greedy k bol t gs = None"
  using assms(2)
proof (induction t arbitrary: bol)
  case Nil
  then show ?case by (simp add: assms(1))
next
  case (Cons x xs)
  then have "any_greedy k False xs gs = None" and "k (bol, x # xs, gs) = None"
    by (simp_all add: assms(1))
  then show ?case by auto
qed

lemma any_lazy_fails:
  assumes "\<And>b' t' gs'. c \<notin> set t' \<Longrightarrow> k (b', t', gs') = None" and "c \<notin> set t"
  shows "any_lazy k bol t gs = None"
  using assms(2)
proof (induction t arbitrary: bol)
  case Nil
  then show ?case by (simp add: assms(1))
next
  case (Cons x xs)
  then have "any_lazy k False xs gs = None" and "k (bol, x # xs, gs) = None"
    by (simp_all add: assms(1))
  then show ?case by auto
qed

lemma rmatch_fails_cont:
  "(\<And>b' t' gs'. c \<notin> set t' \<Longrightarrow> k (b', t', gs') = None) \<Longrightarrow> c \<notin> set t \<Longrightarrow>
   rmatch pat k (bol, t, gs) = None"
proof (induction pat arbitrary: k bol t gs)
  case (Lit s)
  have "c \<notin> set (drop (length s) t)"
    using Lit.prems(2) by (meson in_set_dropD)
  then show ?case by (simp add: Lit.prems(1))
next
  case AnyStar
  then show ?case by (simp add: any_greedy_fails [where c = c])
next
  case AnyLazy
  then show ?case by (simp add: any_lazy_fails [where c = c])
next
  case Bol
  then show ?case by simp
next
  case (Seq a b)
  have "rmatch a (rmatch b k) (bol, t, gs) = None"
  proof (rule Seq.IH(1))
    show "rmatch b k (b', t', gs') = None" if "c \<notin> set t'" for b' t' gs'
      by (rule Seq.IH(2)) (simp_all add: Seq.prems(1) that)
    show "c \<notin> set t" by fact
  qed
  then show ?case by simp
next
  case (Alt a b)
  have "rmatch a (\<lambda>(bol', text', gs'). k (bol', text', gs' @ replicate (ngroups b) None))
          (bol, t, gs) = None"
    by (rule Alt.IH(1)) (simp_all add: Alt.prems)
  moreover have "rmatch b k (bol, t, gs @ replicate (ngroups a) None) = None"
    by (rule Alt.IH(2)) (simp_all add: Alt.prems)
  ultimately show ?case by simp
next
  case (Opt a)
  have "rmatch a k (bol, t, gs) = None"
    by (rule Opt.IH) (simp_all add: Opt.prems)
  then show ?case by (simp add: Opt.prems)
next
  case (Grp a)
  have "rmatch a (\<lambda>(bol', text', gs').
          k (bol', text', gs'[length gs := Some (take (length t - length text') t)]))
          (bol, t, gs @ [None]) = None"
    by (rule Grp.IH) (simp_all add: Grp.prems)
  then show ?case by simp
qed

lemma rmatch_requires_char:
  "requires_char pat c \<Longrightarrow> c \<notin> set t \<Longrightarrow> rmatch pat k (bol, t, gs) = None"
proof (induction pat arbitrary: k bol t gs)
  case (Lit s)
  then show ?case by (auto simp: starts_with_iff)
next
  case (Seq a b)
  show ?case
  proof (cases "requires_char a c")
    case True
    then show ?thesis using Seq.IH(1) Seq.prems(2) by simp
  next
    case False
    with Seq.prems(1) have rb: "requires_char b c" by simp
    have "rmatch a (rmatch b k) (bol, t, gs) = None"
    proof (rule rmatch_fails_cont [where c = c])
      show "rmatch b k (b', t', gs') = None" if "c \<notin> set t'" for b' t' gs'
        using Seq.IH(2) [OF rb that] .
      show "c \<notin> set t" by fact
    qed
    then show ?thesis by simp
  qed
next
  case (Alt a b)
  then show ?case by simp
next
  case (Grp a)
  then show ?case by simp
qed simp_all

lemma re_sub_requires_char:
  "requires_char pat c \<Longrightarrow> c \<notin> set t \<Longrightarrow> re_sub pat rp bol t fns = (t, fns)"
proof (induction t arbitrary: bol)
  case Nil
  then show ?case by (simp add: re_sub_Nil re_match_def rmatch_requires_char)
next
  case (Cons x xs)
  then have "re_match pat bol (x # xs) = None"
    by (simp add: re_match_def rmatch_requires_char)
  with Cons show ?case by (simp add: re_sub_skip)
qed

lemma re_sub_first_only:
  "requires_char pat c \<Longrightarrow> c \<notin> set t \<Longrightarrow> re_match pat bol (x # t) = None \<Longrightarrow>
   re_sub pat rp bol (x # t) fns = (x # t, fns)"
  by (simp add: re_sub_skip re_sub_requires_char)


subsection \<open>Matches of the heading and the reference pattern\<close>

lemma section_match_plain:
  assumes "CHR ''}'' \<notin> set name" and "NL \<notin> set name"
  shows "re_match section_pattern bol (BSL # ''section{'' @ name @ ''}'' @ rest)
         = Some (False, rest, [None, Some name])"
  using grp_lazy_brace [OF assms, of False rest "[None]"]
  by (simp add: re_match_def section_pattern_def grp_lit del: rmatch.simps(8))

lemma section_match_sub:
  assumes "CHR ''}'' \<notin> set name" and "NL \<notin> set name"
  shows "re_match section_pattern bol (BSL # ''subsection{'' @ name @ ''}'' @ rest)
         = Some (False, rest, [Some ''sub'', Some name])"
  using grp_lazy_brace [OF assms, of False rest "[Some ''sub'']"]
  by (simp add: re_match_def section_pattern_def grp_lit del: rmatch.simps(8))

lemma ref_match_plain:
  assumes "CHR ''}'' \<notin> set label" and "NL \<notin> set label"
  shows "re_match ref_pattern bol (BSL # ''ref{'' @ label @ ''}'' @ rest)
         = Some (False, rest, [None, Some label])"
  using grp_lazy_brace [OF assms, of False rest "[None]"]
  by (simp add: re_match_def ref_pattern_def grp_lit del: rmatch.simps(8))

lemma ref_match_auto:
  assumes "CHR ''}'' \<notin> set label" and "NL \<notin> set label"
  shows "re_match ref_pattern bol (BSL # ''autoref{'' @ label @ ''}'' @ rest)
         = Some (False, rest, [Some ''auto'', Some label])"
  using grp_lazy_brace [OF assms, of False rest "[Some ''auto'']"]
  by (simp add: re_match_def ref_pattern_def grp_lit del: rmatch.simps(8))

lemma section_replace_groups:
  "section_replace \<lparr>group0 = g, groups = [sub, Some name]\<rparr> =
     name @ [NL] @ replicate (length name) (if truthy sub then CHR ''-'' else CHR ''='')"
  by (simp add: section_replace_def grp_def)

lemma ref_replace_groups:
  "ref_replace \<lparr>group0 = g, groups = [auto, Some label]\<rparr> =
     (if truthy auto then ''Figure '' else []) @ '':ref:`'' @ sanitized_label label @ ''`''"
  by (simp add: ref_replace_def grp_def)


subsection \<open>Label sanitisation\<close>

lemma py_replace_go_single:
  "py_replace_go [x] [] 0 s = filter (\<lambda>c. c \<noteq> x) s"
  by (induction s) auto

lemma sanitized_label_filter:
  "sanitized_label t = filter (\<lambda>c. c \<noteq> CHR '':'' \<and> c \<noteq> CHR ''_'') t"
  by (simp add: sanitized_label_def py_replace_def py_replace_go_single conj_commute)

text \<open>
  C7. Label sanitisation removes exactly the colons and the underscores of a label and keeps
  every other character in its place, and sanitising twice is the same as sanitising once.
\<close>

theorem sanitized_label_removes_exactly:
  "sanitized_label text = filter (\<lambda>c. c \<noteq> CHR '':'' \<and> c \<noteq> CHR ''_'') text
   \<and> sanitized_label (sanitized_label text) = sanitized_label text"
  by (simp add: sanitized_label_filter)

theorem sanitized_label_removes_exactly_witness:
  "sanitized_label ''sec:intro_a'' = ''secintroa''
   \<and> sanitized_label (sanitized_label ''sec:intro_a'') = sanitized_label ''sec:intro_a''"
  using sanitized_label_removes_exactly [of "''sec:intro_a''"] by auto


subsection \<open>Headings and references through the whole table\<close>

lemma grp_greedy_fails:
  assumes "\<And>b' t' gs'. c \<notin> set t' \<Longrightarrow> k (b', t', gs') = None"
    and "c \<notin> set t"
    and "\<And>gs'. k (bol, x # t, gs') = None"
  shows "rmatch (Grp AnyStar) k (bol, x # t, gs) = None"
proof -
  let ?k = "\<lambda>(bol', text', gs').
     k (bol', text', gs'[length gs := Some (take (length (x # t) - length text') (x # t))])"
  have "any_greedy ?k False t (gs @ [None]) = None"
    by (rule any_greedy_fails [where c = c]) (simp_all add: assms)
  moreover have "?k (bol, x # t, gs @ [None]) = None"
    by (simp add: assms(3))
  ultimately show ?thesis by auto
qed

lemma label_no_match:
  assumes "BSL \<notin> set t" and "\<not> starts_with (BSL # ''label{'') (x # t)"
  shows "re_match label_pattern bol (x # t) = None"
proof -
  let ?R = "Seq (Lit (BSL # ''label{'')) (Seq (Grp AnyLazy) (Lit ''}''))"
  have "rmatch (Grp AnyStar) (rmatch ?R Some) (bol, x # t, []) = None"
  proof (rule grp_greedy_fails [where c = BSL])
    show "rmatch ?R Some (b', t', gs') = None" if "BSL \<notin> set t'" for b' t' gs'
      by (rule rmatch_requires_char [where c = BSL]) (simp_all add: that)
    show "BSL \<notin> set t" by fact
    show "rmatch ?R Some (bol, x # t, gs') = None" for gs'
      by (simp only: rmatch.simps assms(2) if_False)
  qed
  then show ?thesis by (simp add: re_match_def label_pattern_def del: rmatch.simps(8))
qed

lemma re_sub_label_first_only:
  "BSL \<notin> set t \<Longrightarrow> \<not> starts_with (BSL # ''label{'') (x # t) \<Longrightarrow>
   re_sub label_pattern rp bol (x # t) fns = (x # t, fns)"
proof (rule re_sub_first_only [where c = BSL])
  show "requires_char label_pattern BSL"
    by (simp add: label_pattern_def)
qed (simp_all add: label_no_match)

lemma requires_command_regex [simp]: "0 < n \<Longrightarrow> requires_char (command_regex cmd n) BSL"
  by (cases n) (simp_all add: command_regex_def)

lemma requires_later_rules:
  "requires_char ref_pattern BSL"
  "requires_char section_pattern BSL"
  "requires_char (Grp (Seq (Lit (BSL # ''make'')) (Seq AnyStar (Lit ''Fig'')))) BSL"
  "requires_char (Seq (Lit ''``'') (Seq (Grp AnyLazy) (Lit [DQ]))) DQ"
  "requires_char (Lit ''~'') CHR ''~''"
  "requires_char (Grp (Seq Bol (Seq (Lit ''%'') AnyStar))) CHR ''%''"
  "requires_char (the (env_regex ''itemize'' True True)) BSL"
  "requires_char (Lit (BSL # ''item'')) BSL"
  "requires_char (the (env_regex ''lstlisting'' True False)) BSL"
  "requires_char (the (env_regex ''lstlisting'' False True)) BSL"
  by (simp_all add: ref_pattern_def section_pattern_def env_regex_def)

lemma later_rules_keep:
  assumes "BSL \<notin> set t" "DQ \<notin> set t" "CHR ''~'' \<notin> set t" "CHR ''%'' \<notin> set t"
  shows "apply_rules (drop 3 replace_spec) t fns = (t, fns)"
    and "apply_rules (drop 4 replace_spec) t fns = (t, fns)"
  using assms
  by (simp add: replace_spec_def re_sub_requires_char [where c = BSL]
      re_sub_requires_char [where c = DQ] re_sub_requires_char [where c = "CHR ''~''"]
      re_sub_requires_char [where c = "CHR ''%''"] requires_later_rules
      numeral_3_eq_3 eval_nat_numeral)+

lemma apply_rules_append:
  "apply_rules (xs @ ys) t fns =
     (case apply_rules xs t fns of (t', fns') \<Rightarrow> apply_rules ys t' fns')"
  by (induction xs arbitrary: t fns) (auto split: prod.split)

lemma apply_rules_split:
  "apply_rules replace_spec t fns =
     (case apply_rules (take n replace_spec) t fns of
        (t', fns') \<Rightarrow> apply_rules (drop n replace_spec) t' fns')"
  using apply_rules_append [of "take n replace_spec" "drop n replace_spec" t fns] by simp

lemma first_rules:
  "take 3 replace_spec =
     [(command_regex ''cite'' 1, Template [T '':cite:`'', G 1, T ''`'']),
      (label_pattern, pure_cb label_replace),
      (section_pattern, pure_cb section_replace)]"
  "take 4 replace_spec =
     [(command_regex ''cite'' 1, Template [T '':cite:`'', G 1, T ''`'']),
      (label_pattern, pure_cb label_replace),
      (section_pattern, pure_cb section_replace),
      (ref_pattern, pure_cb ref_replace)]"
  by (simp_all add: replace_spec_def eval_nat_numeral)

lemma cite_first_only:
  "BSL \<notin> set t \<Longrightarrow> \<not> starts_with (BSL # ''cite'') (x # t) \<Longrightarrow>
   re_sub (command_regex ''cite'' 1) rp bol (x # t) fns = (x # t, fns)"
proof (rule re_sub_first_only [where c = BSL])
  assume "\<not> starts_with (BSL # ''cite'') (x # t)"
  then show "re_match (command_regex ''cite'' 1) bol (x # t) = None"
    by (auto simp: re_match_def command_regex_def)
qed simp_all

lemma section_first_only:
  "BSL \<notin> set t \<Longrightarrow> \<not> starts_with ''section{'' t \<Longrightarrow> \<not> starts_with ''subsection{'' t \<Longrightarrow>
   re_sub section_pattern rp bol (x # t) fns = (x # t, fns)"
proof (rule re_sub_first_only [where c = BSL])
  assume "\<not> starts_with ''section{'' t" "\<not> starts_with ''subsection{'' t"
  then show "re_match section_pattern bol (x # t) = None"
    by (auto simp: re_match_def section_pattern_def grp_lit starts_with_iff
        simp del: rmatch.simps(8))
qed (simp_all add: section_pattern_def)

lemma re_sub_section_heading:
  assumes "CHR ''}'' \<notin> set name" and "NL \<notin> set name"
  shows "re_sub section_pattern (pure_cb section_replace) bol
           (BSL # ''section{'' @ name @ ''}'') fns =
         (name @ [NL] @ replicate (length name) CHR ''='', fns)"
    and "re_sub section_pattern (pure_cb section_replace) bol
           (BSL # ''subsection{'' @ name @ ''}'') fns =
         (name @ [NL] @ replicate (length name) CHR ''-'', fns)"
proof -
  have nil: "re_sub section_pattern (pure_cb section_replace) False [] fns = ([], fns)"
    by (rule re_sub_Nil) (simp add: re_match_def section_pattern_def)
  show "re_sub section_pattern (pure_cb section_replace) bol
           (BSL # ''section{'' @ name @ ''}'') fns =
         (name @ [NL] @ replicate (length name) CHR ''='', fns)"
    using re_sub_match [OF section_match_plain [OF assms, of bol "[]"], of "pure_cb section_replace" fns]
    by (simp add: nil section_replace_groups truthy_def)
  show "re_sub section_pattern (pure_cb section_replace) bol
           (BSL # ''subsection{'' @ name @ ''}'') fns =
         (name @ [NL] @ replicate (length name) CHR ''-'', fns)"
    using re_sub_match [OF section_match_sub [OF assms, of bol "[]"], of "pure_cb section_replace" fns]
    by (simp add: nil section_replace_groups truthy_def)
qed

lemma convert_plain_heading:
  assumes "set name \<inter> set markup_chars = {}"
  shows "convert_text (BSL # ''section{'' @ name @ ''}'') fns =
           (name @ [NL] @ replicate (length name) CHR ''='' @ [NL, NL], [])"
    and "convert_text (BSL # ''subsection{'' @ name @ ''}'') fns =
           (name @ [NL] @ replicate (length name) CHR ''-'' @ [NL, NL], [])"
proof -
  from assms have n: "BSL \<notin> set name" "DQ \<notin> set name" "CHR ''~'' \<notin> set name"
    "CHR ''%'' \<notin> set name" "CHR ''}'' \<notin> set name" "NL \<notin> set name"
    by (auto simp: markup_chars_def)
  have first: "apply_rules (take 3 replace_spec) (BSL # cmd @ name @ ''}'') [] =
          (name @ [NL] @ replicate (length name) u, [])"
    if "cmd = ''section{'' \<or> cmd = ''subsection{''"
      and "re_sub section_pattern (pure_cb section_replace) True (BSL # cmd @ name @ ''}'') [] =
          (name @ [NL] @ replicate (length name) u, [])" for cmd u
  proof -
    have c: "re_sub (command_regex ''cite'' 1) rp True (BSL # cmd @ name @ ''}'') [] =
        (BSL # cmd @ name @ ''}'', [])" for rp
      using that(1) n by (intro cite_first_only) auto
    have l: "re_sub label_pattern rp True (BSL # cmd @ name @ ''}'') [] =
        (BSL # cmd @ name @ ''}'', [])" for rp
      using that(1) n by (intro re_sub_label_first_only) auto
    show ?thesis
      by (simp only: first_rules apply_rules.simps c l that(2) prod.case)
  qed
  have later: "apply_rules (drop 3 replace_spec) (name @ [NL] @ replicate (length name) u) [] =
      (name @ [NL] @ replicate (length name) u, [])" if "u = CHR ''='' \<or> u = CHR ''-''" for u
    using that n by (intro later_rules_keep) auto
  show "convert_text (BSL # ''section{'' @ name @ ''}'') fns =
           (name @ [NL] @ replicate (length name) CHR ''='' @ [NL, NL], [])"
    using first [of "''section{''" "CHR ''=''"] later [of "CHR ''=''"] re_sub_section_heading(1) [OF n(5,6)]
    by (simp add: convert_text_def apply_rules_split [of _ _ 3])
  show "convert_text (BSL # ''subsection{'' @ name @ ''}'') fns =
           (name @ [NL] @ replicate (length name) CHR ''-'' @ [NL, NL], [])"
    using first [of "''subsection{''" "CHR ''-''"] later [of "CHR ''-''"] re_sub_section_heading(2) [OF n(5,6)]
    by (simp add: convert_text_def apply_rules_split [of _ _ 3])
qed

lemma re_sub_ref:
  assumes "CHR ''}'' \<notin> set label" and "NL \<notin> set label"
  shows "re_sub ref_pattern (pure_cb ref_replace) bol (BSL # ''ref{'' @ label @ ''}'' @ rest) fns =
         ('':ref:`'' @ sanitized_label label @ ''`'' @
            fst (re_sub ref_pattern (pure_cb ref_replace) False rest []), fns)"
    and "re_sub ref_pattern (pure_cb ref_replace) bol (BSL # ''autoref{'' @ label @ ''}'' @ rest) fns =
         (''Figure :ref:`'' @ sanitized_label label @ ''`'' @
            fst (re_sub ref_pattern (pure_cb ref_replace) False rest []), fns)"
proof -
  show "re_sub ref_pattern (pure_cb ref_replace) bol (BSL # ''ref{'' @ label @ ''}'' @ rest) fns =
         ('':ref:`'' @ sanitized_label label @ ''`'' @
            fst (re_sub ref_pattern (pure_cb ref_replace) False rest []), fns)"
    using re_sub_match [OF ref_match_plain [OF assms, of bol rest], of "pure_cb ref_replace" fns]
      re_sub_pure_cb [of ref_pattern ref_replace False rest fns]
    by (simp add: ref_replace_groups truthy_def)
  show "re_sub ref_pattern (pure_cb ref_replace) bol (BSL # ''autoref{'' @ label @ ''}'' @ rest) fns =
         (''Figure :ref:`'' @ sanitized_label label @ ''`'' @
            fst (re_sub ref_pattern (pure_cb ref_replace) False rest []), fns)"
    using re_sub_match [OF ref_match_auto [OF assms, of bol rest], of "pure_cb ref_replace" fns]
      re_sub_pure_cb [of ref_pattern ref_replace False rest fns]
    by (simp add: ref_replace_groups truthy_def)
qed

lemma re_sub_ref_Nil: "re_sub ref_pattern rp False [] fns = ([], fns)"
  by (rule re_sub_Nil) (simp add: re_match_def ref_pattern_def)

lemma convert_plain_ref:
  assumes "set label \<inter> set markup_chars = {}"
  shows "convert_text (BSL # ''ref{'' @ label @ ''}'') fns =
           ('':ref:`'' @ sanitized_label label @ ''`'' @ [NL, NL], [])"
    and "convert_text (BSL # ''autoref{'' @ label @ ''}'') fns =
           (''Figure :ref:`'' @ sanitized_label label @ ''`'' @ [NL, NL], [])"
proof -
  from assms have n: "BSL \<notin> set label" "DQ \<notin> set label" "CHR ''~'' \<notin> set label"
    "CHR ''%'' \<notin> set label" "CHR ''}'' \<notin> set label" "NL \<notin> set label"
    by (auto simp: markup_chars_def)
  have first: "apply_rules (take 4 replace_spec) (BSL # cmd @ label @ ''}'') [] =
          (u @ '':ref:`'' @ sanitized_label label @ ''`'', [])"
    if "cmd = ''ref{'' \<or> cmd = ''autoref{''"
      and "re_sub ref_pattern (pure_cb ref_replace) True (BSL # cmd @ label @ ''}'') [] =
          (u @ '':ref:`'' @ sanitized_label label @ ''`'', [])" for cmd u
  proof -
    have c: "re_sub (command_regex ''cite'' 1) rp True (BSL # cmd @ label @ ''}'') [] =
        (BSL # cmd @ label @ ''}'', [])" for rp
      using that(1) n by (intro cite_first_only) auto
    have l: "re_sub label_pattern rp True (BSL # cmd @ label @ ''}'') [] =
        (BSL # cmd @ label @ ''}'', [])" for rp
      using that(1) n by (intro re_sub_label_first_only) auto
    have s: "re_sub section_pattern rp True (BSL # cmd @ label @ ''}'') [] =
        (BSL # cmd @ label @ ''}'', [])" for rp
      using that(1) n by (intro section_first_only) auto
    show ?thesis
      by (simp only: first_rules apply_rules.simps c l s that(2) prod.case)
  qed
  have later: "apply_rules (drop 4 replace_spec) (u @ '':ref:`'' @ sanitized_label label @ ''`'') [] =
      (u @ '':ref:`'' @ sanitized_label label @ ''`'', [])" if "u = [] \<or> u = ''Figure ''" for u
    using that n by (intro later_rules_keep) (auto simp: sanitized_label_filter)
  show "convert_text (BSL # ''ref{'' @ label @ ''}'') fns =
           ('':ref:`'' @ sanitized_label label @ ''`'' @ [NL, NL], [])"
    using first [of "''ref{''" "[]"] later [of "[]"] re_sub_ref(1) [OF n(5,6), of True "[]" "[]"]
    by (simp add: convert_text_def apply_rules_split [of _ _ 4] re_sub_ref_Nil)
  show "convert_text (BSL # ''autoref{'' @ label @ ''}'') fns =
           (''Figure :ref:`'' @ sanitized_label label @ ''`'' @ [NL, NL], [])"
    using first [of "''autoref{''" "''Figure ''"] later [of "''Figure ''"]
      re_sub_ref(2) [OF n(5,6), of True "[]" "[]"]
    by (simp add: convert_text_def apply_rules_split [of _ _ 4] re_sub_ref_Nil)
qed


text \<open>
  C2. A heading command with the text \<open>name\<close> becomes \<open>name\<close>, a newline and
  \<open>length name\<close> copies of the underline character, which is \<open>=\<close> for a section and the
  different character \<open>-\<close> for a subsection. This is what the replacement function returns
  for every match; what the heading rule makes of a command whose text has no closing brace
  and no newline, whatever follows it; and, for a text without markup characters, what the
  whole converter writes for the line, followed by the two newlines that end every file.
  The instance \<^verbatim>\<open>\section{Results}\<close> gives \<^verbatim>\<open>Results\<close> over seven \<^verbatim>\<open>=\<close>.
\<close>

theorem heading_underline:
  "section_replace \<lparr>group0 = g, groups = [sub, Some name]\<rparr> =
     name @ [NL] @ replicate (length name) (if truthy sub then CHR ''-'' else CHR ''='')
   \<and> (CHR ''}'' \<notin> set name \<and> NL \<notin> set name \<longrightarrow>
        fst (re_sub section_pattern (pure_cb section_replace) bol
               (BSL # ''section{'' @ name @ ''}'' @ rest) fns) =
          name @ [NL] @ replicate (length name) CHR ''='' @
          fst (re_sub section_pattern (pure_cb section_replace) False rest fns)
      \<and> fst (re_sub section_pattern (pure_cb section_replace) bol
               (BSL # ''subsection{'' @ name @ ''}'' @ rest) fns) =
          name @ [NL] @ replicate (length name) CHR ''-'' @
          fst (re_sub section_pattern (pure_cb section_replace) False rest fns))
   \<and> (set name \<inter> set markup_chars = {} \<longrightarrow>
        fst (convert_text (BSL # ''section{'' @ name @ ''}'') fns) =
          name @ [NL] @ replicate (length name) CHR ''='' @ [NL, NL]
      \<and> fst (convert_text (BSL # ''subsection{'' @ name @ ''}'') fns) =
          name @ [NL] @ replicate (length name) CHR ''-'' @ [NL, NL])"
proof (intro conjI impI)
  show "section_replace \<lparr>group0 = g, groups = [sub, Some name]\<rparr> =
     name @ [NL] @ replicate (length name) (if truthy sub then CHR ''-'' else CHR ''='')"
    by (rule section_replace_groups)
next
  assume "CHR ''}'' \<notin> set name \<and> NL \<notin> set name"
  then have a: "CHR ''}'' \<notin> set name" "NL \<notin> set name"
    by simp_all
  note m = section_match_plain [OF a, of bol rest] and ms = section_match_sub [OF a, of bol rest]
  show "fst (re_sub section_pattern (pure_cb section_replace) bol
               (BSL # ''section{'' @ name @ ''}'' @ rest) fns) =
          name @ [NL] @ replicate (length name) CHR ''='' @
          fst (re_sub section_pattern (pure_cb section_replace) False rest fns)"
    by (subst re_sub_match [OF m])
       (simp_all add: section_replace_groups truthy_def split: prod.split)
  show "fst (re_sub section_pattern (pure_cb section_replace) bol
               (BSL # ''subsection{'' @ name @ ''}'' @ rest) fns) =
          name @ [NL] @ replicate (length name) CHR ''-'' @
          fst (re_sub section_pattern (pure_cb section_replace) False rest fns)"
    by (subst re_sub_match [OF ms])
       (simp_all add: section_replace_groups truthy_def split: prod.split)
next
  assume p: "set name \<inter> set markup_chars = {}"
  show "fst (convert_text (BSL # ''section{'' @ name @ ''}'') fns) =
          name @ [NL] @ replicate (length name) CHR ''='' @ [NL, NL]"
    using convert_plain_heading(1) [OF p, of fns] by simp
  show "fst (convert_text (BSL # ''subsection{'' @ name @ ''}'') fns) =
          name @ [NL] @ replicate (length name) CHR ''-'' @ [NL, NL]"
    using convert_plain_heading(2) [OF p, of fns] by simp
qed

theorem heading_underline_witness:
  "fst (convert_text (BSL # ''section{Results}'') []) = ''Results'' @ [NL] @ ''======='' @ [NL, NL]
   \<and> fst (convert_text (BSL # ''subsection{Setup}'') []) = ''Setup'' @ [NL] @ ''-----'' @ [NL, NL]
   \<and> fst (re_sub section_pattern (pure_cb section_replace) True
            (BSL # ''section{Results} and more'') []) =
       ''Results'' @ [NL] @ ''======= and more''"
proof -
  have "fst (re_sub section_pattern (pure_cb section_replace) False '' and more'' []) = '' and more''"
    by (simp add: re_sub_requires_char [where c = BSL] section_pattern_def)
  then show ?thesis
    using heading_underline [of undefined None "''Results''" True "'' and more''" "[]"]
      heading_underline [of undefined None "''Setup''" True "[]" "[]"]
    by (simp add: markup_chars_def)
qed


text \<open>
  C8. For every label, the replacement of \<^verbatim>\<open>\autoref\<close> is the word \<^verbatim>\<open>Figure\<close> and a space
  followed by the replacement of \<^verbatim>\<open>\ref\<close> for the same label, and nothing else differs:
  for the replacement function, for the reference rule applied to the two commands in the
  same surroundings, and for the whole converter.
\<close>

theorem autoref_prefixes_figure:
  "ref_replace \<lparr>group0 = g, groups = [Some ''auto'', Some label]\<rparr> =
     ''Figure '' @ ref_replace \<lparr>group0 = g', groups = [None, Some label]\<rparr>
   \<and> (CHR ''}'' \<notin> set label \<and> NL \<notin> set label \<longrightarrow>
        fst (re_sub ref_pattern (pure_cb ref_replace) bol
               (BSL # ''autoref{'' @ label @ ''}'' @ rest) fns) =
        ''Figure '' @
        fst (re_sub ref_pattern (pure_cb ref_replace) bol
               (BSL # ''ref{'' @ label @ ''}'' @ rest) fns))
   \<and> (set label \<inter> set markup_chars = {} \<longrightarrow>
        fst (convert_text (BSL # ''autoref{'' @ label @ ''}'') fns) =
        ''Figure '' @ fst (convert_text (BSL # ''ref{'' @ label @ ''}'') fns)
      \<and> fst (convert_text (BSL # ''ref{'' @ label @ ''}'') fns) =
        '':ref:`'' @ sanitized_label label @ ''`'' @ [NL, NL])"
proof (intro conjI impI)
  show "ref_replace \<lparr>group0 = g, groups = [Some ''auto'', Some label]\<rparr> =
     ''Figure '' @ ref_replace \<lparr>group0 = g', groups = [None, Some label]\<rparr>"
    by (simp add: ref_replace_groups truthy_def)
next
  assume "CHR ''}'' \<notin> set label \<and> NL \<notin> set label"
  then have a: "CHR ''}'' \<notin> set label" "NL \<notin> set label"
    by simp_all
  show "fst (re_sub ref_pattern (pure_cb ref_replace) bol
               (BSL # ''autoref{'' @ label @ ''}'' @ rest) fns) =
        ''Figure '' @
        fst (re_sub ref_pattern (pure_cb ref_replace) bol
               (BSL # ''ref{'' @ label @ ''}'' @ rest) fns)"
    using re_sub_ref(1) [OF a, of bol rest fns] re_sub_ref(2) [OF a, of bol rest fns]
    by simp
next
  assume p: "set label \<inter> set markup_chars = {}"
  show "fst (convert_text (BSL # ''autoref{'' @ label @ ''}'') fns) =
        ''Figure '' @ fst (convert_text (BSL # ''ref{'' @ label @ ''}'') fns)"
    using convert_plain_ref(1) [OF p, of fns] convert_plain_ref(2) [OF p, of fns]
    by simp
  show "fst (convert_text (BSL # ''ref{'' @ label @ ''}'') fns) =
        '':ref:`'' @ sanitized_label label @ ''`'' @ [NL, NL]"
    using convert_plain_ref(1) [OF p, of fns] by simp
qed

theorem autoref_prefixes_figure_witness:
  "fst (convert_text (BSL # ''autoref{fig:my_plot}'') []) = ''Figure :ref:`figmyplot`'' @ [NL, NL]
   \<and> fst (convert_text (BSL # ''ref{fig:my_plot}'') []) = '':ref:`figmyplot`'' @ [NL, NL]"
  using autoref_prefixes_figure [of undefined "''fig:my_plot''" undefined True "[]" "[]"]
  by (simp add: markup_chars_def sanitized_label_filter)


subsection \<open>Patterns that are one literal text\<close>

lemma starts_with_no_overlap:
  assumes "starts_with (c0 # s) (a @ c0 # s @ b)" and "c0 \<notin> set s" and "a \<noteq> []"
  shows "starts_with (c0 # s) a"
proof (cases "length a < length (c0 # s)")
  case True
  from assms(1) obtain r where r: "a @ c0 # s @ b = (c0 # s) @ r"
    by (auto simp: starts_with_iff)
  have "(a @ c0 # s @ b) ! length a = c0"
    by (simp add: nth_append)
  moreover from True have "((c0 # s) @ r) ! length a = (c0 # s) ! length a"
    by (simp only: nth_append if_True)
  moreover from assms(3) True have "(c0 # s) ! length a \<in> set s"
    by (cases "length a") auto
  ultimately show ?thesis using r assms(2) by simp
next
  case False
  from assms(1) obtain r where r: "a @ c0 # s @ b = (c0 # s) @ r"
    by (auto simp: starts_with_iff)
  then have "take (length (c0 # s)) (a @ c0 # s @ b) = c0 # s"
    by simp
  with False have "take (length (c0 # s)) a = c0 # s"
    by simp
  then have "a = (c0 # s) @ drop (length (c0 # s)) a"
    by (metis append_take_drop_id)
  then show ?thesis by (metis starts_with_append)
qed

lemma re_sub_literal_split:
  assumes m: "\<And>bol t. re_match pat bol t =
      (if starts_with (c0 # s) t then Some (False, drop (Suc (length s)) t, []) else None)"
    and c0: "c0 \<notin> set s"
  shows "fst (re_sub pat (Template tm) bol (a @ c0 # s @ b) fns) =
         fst (re_sub pat (Template tm) bol a fns) @
         expand tm \<lparr>group0 = c0 # s, groups = []\<rparr> @
         fst (re_sub pat (Template tm) False b fns)"
proof (induction "length a" arbitrary: a bol rule: less_induct)
  case less
  show ?case
  proof (cases a)
    case Nil
    have "re_match pat bol (c0 # s @ b) = Some (False, b, [])"
      by (simp add: m starts_with_iff)
    from re_sub_match [OF this, of "Template tm" fns]
    have "fst (re_sub pat (Template tm) bol (c0 # s @ b) fns) =
        expand tm \<lparr>group0 = c0 # s, groups = []\<rparr> @ fst (re_sub pat (Template tm) False b fns)"
      by (simp split: prod.split)
    moreover have "re_sub pat (Template tm) bol [] fns = ([], fns)"
      by (rule re_sub_Nil) (simp add: m)
    ultimately show ?thesis using Nil by simp
  next
    case (Cons x a')
    show ?thesis
    proof (cases "starts_with (c0 # s) a")
      case True
      then obtain a'' where a'': "a = (c0 # s) @ a''"
        by (auto simp: starts_with_iff)
      have m1: "re_match pat bol (a @ c0 # s @ b) = Some (False, a'' @ c0 # s @ b, [])"
        by (simp add: m a'' starts_with_iff)
      have m2: "re_match pat bol a = Some (False, a'', [])"
        by (simp add: m a'' starts_with_iff)
      have "length a'' < length a" by (simp add: a'')
      from less [OF this, of False]
      have IH: "fst (re_sub pat (Template tm) False (a'' @ c0 # s @ b) fns) =
         fst (re_sub pat (Template tm) False a'' fns) @
         expand tm \<lparr>group0 = c0 # s, groups = []\<rparr> @
         fst (re_sub pat (Template tm) False b fns)" .
      from re_sub_match [OF m1, of "Template tm" fns] re_sub_match [OF m2, of "Template tm" fns] IH
      show ?thesis
        by (simp add: a'' split: prod.splits)
    next
      case False
      have "\<not> starts_with (c0 # s) (a @ c0 # s @ b)"
        using starts_with_no_overlap [OF _ c0, of a b] False Cons by auto
      then have m1: "re_match pat bol (x # a' @ c0 # s @ b) = None"
        by (simp add: m Cons)
      from False have m2: "re_match pat bol (x # a') = None"
        by (simp add: m Cons)
      from less [of a' "x = NL"] Cons
      have IH: "fst (re_sub pat (Template tm) (x = NL) (a' @ c0 # s @ b) fns) =
         fst (re_sub pat (Template tm) (x = NL) a' fns) @
         expand tm \<lparr>group0 = c0 # s, groups = []\<rparr> @
         fst (re_sub pat (Template tm) False b fns)"
        by simp
      from re_sub_skip [OF m1, of "Template tm" fns] re_sub_skip [OF m2, of "Template tm" fns] IH
      show ?thesis
        by (simp add: Cons split: prod.splits)
    qed
  qed
qed

lemma starts_with_append_iff:
  "starts_with (a @ b) t \<longleftrightarrow> starts_with a t \<and> starts_with b (drop (length a) t)"
  by (auto simp: starts_with_iff)

lemma rmatch_lit_lit:
  "rmatch (Seq (Lit a) (Lit b)) k (bol, t, gs) = rmatch (Lit (a @ b)) k (bol, t, gs)"
  by (cases "b = []") (simp_all add: starts_with_append_iff add.commute)

lemma rmatch_lit_seq:
  "rmatch (Seq (Lit a) (Seq (Lit b) r)) k (bol, t, gs) = rmatch (Seq (Lit (a @ b)) r) k (bol, t, gs)"
  by (cases "b = []") (simp_all add: starts_with_append_iff add.commute)

lemma lstlisting_match:
  "re_match (the (env_regex ''lstlisting'' True False)) bol t =
     (if starts_with (BSL # ''begin{lstlisting}'') t
      then Some (False, drop (Suc (length ''begin{lstlisting}'')) t, []) else None)"
  "re_match (the (env_regex ''lstlisting'' False True)) bol t =
     (if starts_with (BSL # ''end{lstlisting}'') t
      then Some (False, drop (Suc (length ''end{lstlisting}'')) t, []) else None)"
  by (simp_all only: re_match_def env_regex_def rmatch_lit_seq rmatch_lit_lit option.sel
        simp_thms if_True if_False append.simps)
     simp_all

lemma last_rules:
  "drop 15 replace_spec =
     [(the (env_regex ''lstlisting'' True False), Template [T ''```python'']),
      (the (env_regex ''lstlisting'' False True), Template [T ''```''])]"
  "length replace_spec = 17"
  by (simp_all add: replace_spec_def eval_nat_numeral)


text \<open>
  C10. The last two of the seventeen entries of the table are the rules for the delimiters
  of a listing, so they are applied after all other rules: the converter's output is the
  text that the first fifteen rules leave, with these two substitutions applied in turn,
  followed by the footnotes. Each of them replaces every occurrence in the text it is
  applied to: wherever a text is cut at an occurrence of \<^verbatim>\<open>\begin{lstlisting}\<close>, the result
  is the result for the part before it, the literal text \<^verbatim>\<open>```python\<close>, and the result for
  the part behind it; the same holds for \<^verbatim>\<open>\end{lstlisting}\<close> and the literal text \<^verbatim>\<open>```\<close>.
\<close>

theorem lstlisting_fences:
  "drop 15 replace_spec =
     [(the (env_regex ''lstlisting'' True False), Template [T ''```python'']),
      (the (env_regex ''lstlisting'' False True), Template [T ''```''])]
   \<and> length replace_spec = 17
   \<and> fst (re_sub (the (env_regex ''lstlisting'' True False)) (Template [T ''```python'']) bol
          (a @ BSL # ''begin{lstlisting}'' @ b) fns) =
       fst (re_sub (the (env_regex ''lstlisting'' True False)) (Template [T ''```python'']) bol a fns)
       @ ''```python'' @
       fst (re_sub (the (env_regex ''lstlisting'' True False)) (Template [T ''```python'']) False b fns)
   \<and> fst (re_sub (the (env_regex ''lstlisting'' False True)) (Template [T ''```'']) bol
          (a @ BSL # ''end{lstlisting}'' @ b) fns) =
       fst (re_sub (the (env_regex ''lstlisting'' False True)) (Template [T ''```'']) bol a fns)
       @ ''```'' @
       fst (re_sub (the (env_regex ''lstlisting'' False True)) (Template [T ''```'']) False b fns)
   \<and> convert_text file_text fns =
       (case apply_rules (take 15 replace_spec) file_text [] of
          (t, footnotes) \<Rightarrow>
            (fst (re_sub (the (env_regex ''lstlisting'' False True)) (Template [T ''```'']) True
                   (fst (re_sub (the (env_regex ''lstlisting'' True False))
                           (Template [T ''```python'']) True t [])) [])
             @ [NL, NL] @ join [NL] footnotes, footnotes))"
proof (intro conjI)
  show "fst (re_sub (the (env_regex ''lstlisting'' True False)) (Template [T ''```python'']) bol
          (a @ BSL # ''begin{lstlisting}'' @ b) fns) =
       fst (re_sub (the (env_regex ''lstlisting'' True False)) (Template [T ''```python'']) bol a fns)
       @ ''```python'' @
       fst (re_sub (the (env_regex ''lstlisting'' True False)) (Template [T ''```python'']) False b fns)"
    using re_sub_literal_split [where pat = "the (env_regex ''lstlisting'' True False)"
        and ?c0.0 = BSL and s = "''begin{lstlisting}''" and tm = "[T ''```python'']"
        and a = a and b = b and bol = bol and fns = fns]
    by (simp add: lstlisting_match)
  show "fst (re_sub (the (env_regex ''lstlisting'' False True)) (Template [T ''```'']) bol
          (a @ BSL # ''end{lstlisting}'' @ b) fns) =
       fst (re_sub (the (env_regex ''lstlisting'' False True)) (Template [T ''```'']) bol a fns)
       @ ''```'' @
       fst (re_sub (the (env_regex ''lstlisting'' False True)) (Template [T ''```'']) False b fns)"
    using re_sub_literal_split [where pat = "the (env_regex ''lstlisting'' False True)"
        and ?c0.0 = BSL and s = "''end{lstlisting}''" and tm = "[T ''```'']"
        and a = a and b = b and bol = bol and fns = fns]
    by (simp add: lstlisting_match)
  show "convert_text file_text fns =
       (case apply_rules (take 15 replace_spec) file_text [] of
          (t, footnotes) \<Rightarrow>
            (fst (re_sub (the (env_regex ''lstlisting'' False True)) (Template [T ''```'']) True
                   (fst (re_sub (the (env_regex ''lstlisting'' True False))
                           (Template [T ''```python'']) True t [])) [])
             @ [NL, NL] @ join [NL] footnotes, footnotes))"
  proof -
    obtain t footnotes where t: "apply_rules (take 15 replace_spec) file_text [] = (t, footnotes)"
      by (cases "apply_rules (take 15 replace_spec) file_text []")
    have b: "re_sub (the (env_regex ''lstlisting'' True False)) (Template [T ''```python'']) True t footnotes =
        (fst (re_sub (the (env_regex ''lstlisting'' True False)) (Template [T ''```python'']) True t []),
         footnotes)"
      by (rule re_sub_template)
    have e: "re_sub (the (env_regex ''lstlisting'' False True)) (Template [T ''```'']) True t' footnotes =
        (fst (re_sub (the (env_regex ''lstlisting'' False True)) (Template [T ''```'']) True t' []),
         footnotes)" for t'
      by (rule re_sub_template)
    show ?thesis
      by (simp only: convert_text_def apply_rules_split [of file_text "[]" 15] last_rules t
          apply_rules.simps b e prod.case)
  qed
qed (simp_all add: last_rules)

theorem lstlisting_fences_witness:
  "fst (re_sub (the (env_regex ''lstlisting'' True False)) (Template [T ''```python'']) True
          (''Code:'' @ BSL # ''begin{lstlisting}'' @ ''x = 1'') []) = ''Code:```pythonx = 1''
   \<and> fst (re_sub (the (env_regex ''lstlisting'' False True)) (Template [T ''```'']) True
          (''x = 1'' @ BSL # ''end{lstlisting}'' @ ''.'') []) = ''x = 1```.''"
  using lstlisting_fences [of True "''Code:''" "''x = 1''" "[]" "[]"]
    lstlisting_fences [of True "''x = 1''" "''.''" "[]" "[]"]
  by (simp add: re_sub_requires_char [where c = BSL] env_regex_def)


subsection \<open>Labels\<close>

text \<open>
  C5. What the converter writes for a label on the line after the text \<^verbatim>\<open>Some text\<close>: the
  text stays where it is and the anchor follows it, because \<^verbatim>\<open>(.*)\<close> in the pattern of the
  label rule does not reach over the end of a line. Only a text on the label's own line is
  captured and moved below the anchor, as the second input shows.
\<close>

theorem label_after_prior_line:
  "fst (convert_text (''Some text'' @ [NL, BSL] @ ''label{sec:intro}'') []) =
     ''Some text'' @ [NL] @ ''.. _secintro:'' @ [NL, NL] @ [NL, NL]
   \<and> fst (convert_text (''Some text'' @ [BSL] @ ''label{sec:intro}'') []) =
     ''.. _secintro:'' @ [NL, NL] @ ''Some text'' @ [NL, NL]"
  by code_simp

theorem label_after_prior_line_witness:
  "fst (convert_text (''Some text'' @ [NL, BSL] @ ''label{sec:intro}'') []) \<noteq>
     ''.. _secintro:'' @ [NL, NL] @ ''Some text'' @ [NL, NL]"
  using label_after_prior_line by simp


subsection \<open>Footnotes\<close>

lemma re_pieces_Nil:
  "re_match pat bol [] = None \<Longrightarrow> re_pieces pat bol [] = []"
  by (simp add: re_pieces.simps)

lemma re_pieces_skip:
  "re_match pat bol (c # cs) = None \<Longrightarrow>
   re_pieces pat bol (c # cs) = Copied c # re_pieces pat (c = NL) cs"
  by (simp add: re_pieces.simps [of pat bol "c # cs"])

lemma re_pieces_match:
  "re_match pat bol t = Some (bol', rest, gs) \<Longrightarrow> length rest < length t \<Longrightarrow>
   re_pieces pat bol t =
     Replaced \<lparr>group0 = take (length t - length rest) t, groups = gs\<rparr> # re_pieces pat bol' rest"
  by (simp add: re_pieces.simps [of pat bol t])

lemma any_lazy_stuck:
  assumes "NL \<notin> set body"
    and "\<And>i. i \<le> length body \<Longrightarrow> k (bol \<and> i = 0, drop i body @ r, gs) = None"
    and "r = [] \<or> hd r = NL"
  shows "any_lazy k bol (body @ r) gs = None"
  using assms
proof (induction body arbitrary: bol)
  case Nil
  from Nil.prems(2) [of 0] have "k (bol, r, gs) = None" by simp
  with Nil.prems(3) show ?case by (cases r) auto
next
  case (Cons c body)
  from Cons.prems(2) [of 0] have "k (bol, c # body @ r, gs) = None" by simp
  moreover have "any_lazy k False (body @ r) gs = None"
  proof (rule Cons.IH)
    show "NL \<notin> set body" using Cons.prems(1) by simp
    show "k (False \<and> i = 0, drop i body @ r, gs) = None" if "i \<le> length body" for i
      using Cons.prems(2) [of "Suc i"] that by simp
    show "r = [] \<or> hd r = NL" by fact
  qed
  ultimately show ?case by simp
qed

lemma split_at_brace_or_newline:
  obtains body r where "t = body @ r" and "CHR ''}'' \<notin> set body" and "NL \<notin> set body"
    and "r = [] \<or> hd r = CHR ''}'' \<or> hd r = NL"
proof
  let ?P = "\<lambda>c. c \<noteq> CHR ''}'' \<and> c \<noteq> NL"
  show "t = takeWhile ?P t @ dropWhile ?P t"
    by (rule takeWhile_dropWhile_id [symmetric])
  show "CHR ''}'' \<notin> set (takeWhile ?P t)" and "NL \<notin> set (takeWhile ?P t)"
    by (auto dest: set_takeWhileD)
  show "dropWhile ?P t = [] \<or> hd (dropWhile ?P t) = CHR ''}'' \<or> hd (dropWhile ?P t) = NL"
    using hd_dropWhile [of ?P t] by blast
qed

lemma grp_lazy_brace_None:
  assumes "CHR ''}'' \<notin> set body" and "NL \<notin> set body" and "r = [] \<or> hd r = NL"
  shows "rmatch (Grp AnyLazy) (rmatch (Lit ''}'') Some) (bol, body @ r, gs) = None"
proof -
  let ?k = "\<lambda>(bol', text', gs').
     rmatch (Lit ''}'') Some
       (bol', text', gs'[length gs := Some (take (length (body @ r) - length text') (body @ r))])"
  have "any_lazy ?k bol (body @ r) (gs @ [None]) = None"
  proof (rule any_lazy_stuck)
    show "NL \<notin> set body" by fact
    show "r = [] \<or> hd r = NL" by fact
    show "?k (bol \<and> i = 0, drop i body @ r, gs @ [None]) = None" if "i \<le> length body" for i
    proof (cases "i < length body")
      case True
      then have "drop i body = body ! i # drop (Suc i) body"
        by (simp add: Cons_nth_drop_Suc)
      moreover from True assms(1) have "body ! i \<noteq> CHR ''}''"
        by (metis nth_mem)
      ultimately show ?thesis by simp
    next
      case False
      with that have "drop i body = []" by simp
      with assms(3) show ?thesis by (cases r) auto
    qed
  qed
  then show ?thesis by simp
qed

lemma grp_lazy_brace_Some:
  assumes "rmatch (Grp AnyLazy) (rmatch (Lit ''}'') Some) (bol, t, gs) = Some st"
  shows "\<exists>body rest. t = body @ CHR ''}'' # rest \<and> CHR ''}'' \<notin> set body \<and> NL \<notin> set body
           \<and> st = (False, rest, gs @ [Some body])"
proof -
  obtain body r where t: "t = body @ r" and body: "CHR ''}'' \<notin> set body" "NL \<notin> set body"
    and r: "r = [] \<or> hd r = CHR ''}'' \<or> hd r = NL"
    by (rule split_at_brace_or_newline)
  show ?thesis
  proof (cases "r \<noteq> [] \<and> hd r = CHR ''}''")
    case True
    then obtain rest where "r = CHR ''}'' # rest"
      by (cases r) auto
    with t have t': "t = body @ CHR ''}'' # rest" by simp
    from grp_lazy_brace [OF body, of bol rest gs] assms
    have "st = (False, rest, gs @ [Some body])" unfolding t' by simp
    with t' body show ?thesis by blast
  next
    case False
    with r have "r = [] \<or> hd r = NL" by blast
    from grp_lazy_brace_None [OF body this, of bol gs] assms
    have False unfolding t by simp
    then show ?thesis ..
  qed
qed

lemma command_match_Some:
  assumes "re_match (command_regex cmd 1) bol t = Some st"
  shows "\<exists>body rest. t = BSL # cmd @ ''{'' @ body @ ''}'' @ rest \<and> CHR ''}'' \<notin> set body
           \<and> NL \<notin> set body \<and> st = (False, rest, [Some body])"
proof -
  let ?lit = "BSL # cmd @ ''{''"
  have "command_regex cmd 1 =
      Seq (Lit (BSL # cmd)) (Seq (Lit ''{'') (Seq (Grp AnyLazy) (Lit ''}'')))"
    by (simp add: command_regex_def)
  then have "re_match (command_regex cmd 1) bol t =
      rmatch (Seq (Lit ((BSL # cmd) @ ''{'')) (Seq (Grp AnyLazy) (Lit ''}''))) Some (bol, t, [])"
    by (simp only: re_match_def rmatch_lit_seq)
  then have eq: "re_match (command_regex cmd 1) bol t =
      (if starts_with ?lit t
       then rmatch (Grp AnyLazy) (rmatch (Lit ''}'') Some) (False, drop (length ?lit) t, [])
       else None)"
    by (simp del: rmatch.simps(8) starts_with.simps)
  with assms have sw: "starts_with ?lit t"
    by (simp split: if_splits del: rmatch.simps starts_with.simps)
  then obtain t2 where t: "t = ?lit @ t2"
    by (auto simp: starts_with_iff)
  with eq assms sw have "rmatch (Grp AnyLazy) (rmatch (Lit ''}'') Some) (False, t2, []) = Some st"
    by (simp del: rmatch.simps starts_with.simps)
  from grp_lazy_brace_Some [OF this] t show ?thesis by auto
qed

lemma command_match:
  assumes "CHR ''}'' \<notin> set body" and "NL \<notin> set body"
  shows "re_match (command_regex cmd 1) bol (BSL # cmd @ ''{'' @ body @ ''}'' @ rest)
         = Some (False, rest, [Some body])"
  using grp_lazy_brace [OF assms, of False rest "[]"]
  by (simp add: re_match_def command_regex_def starts_with_append_iff del: rmatch.simps(8))

lemma command_pieces_cases:
  fixes cmd bol t
  defines "P \<equiv> command_regex cmd 1"
  obtains
    (empty) "t = []" "re_pieces P bol t = []" "\<And>rp fns. re_sub P rp bol t fns = ([], fns)"
  | (copy) c cs where "t = c # cs" "re_match P bol t = None"
      "re_pieces P bol t = Copied c # re_pieces P (c = NL) cs"
      "\<And>rp fns. re_sub P rp bol t fns =
         (case re_sub P rp (c = NL) cs fns of (out', fns') \<Rightarrow> (c # out', fns'))"
  | (command) body rest where "t = BSL # cmd @ ''{'' @ body @ ''}'' @ rest"
      "CHR ''}'' \<notin> set body" "NL \<notin> set body"
      "re_pieces P bol t =
         Replaced \<lparr>group0 = BSL # cmd @ ''{'' @ body @ ''}'', groups = [Some body]\<rparr>
         # re_pieces P False rest"
      "\<And>rp fns. re_sub P rp bol t fns =
         (case run_repl rp \<lparr>group0 = BSL # cmd @ ''{'' @ body @ ''}'', groups = [Some body]\<rparr> fns of
            (out, fns') \<Rightarrow>
              (case re_sub P rp False rest fns' of (out', fns'') \<Rightarrow> (out @ out', fns'')))"
proof (cases "re_match P bol t")
  case None
  show ?thesis
  proof (cases t)
    case Nil
    with None show ?thesis
      by (intro empty) (simp_all add: re_pieces_Nil re_sub_Nil)
  next
    case (Cons c cs)
    with None show ?thesis
      by (intro copy [of c cs]) (simp_all add: re_pieces_skip re_sub_skip)
  qed
next
  case (Some st)
  from command_match_Some [OF Some [unfolded P_def]]
  obtain body rest where t: "t = BSL # cmd @ ''{'' @ body @ ''}'' @ rest"
    and body: "CHR ''}'' \<notin> set body" "NL \<notin> set body" and st: "st = (False, rest, [Some body])"
    by blast
  have len: "length rest < length t" by (simp add: t)
  have "t = (BSL # cmd @ ''{'' @ body @ ''}'') @ rest"
    by (simp add: t)
  then have tk: "take (length t - length rest) t = BSL # cmd @ ''{'' @ body @ ''}''"
    by (simp only: length_append add_diff_cancel_right' append_eq_conv_conj take_all order_refl append_Nil2 take_append diff_self_eq_0 take_0)
  from Some st have m: "re_match P bol t = Some (False, rest, [Some body])" by simp
  show ?thesis
  proof (rule command [OF t body])
    show "re_pieces P bol t =
         Replaced \<lparr>group0 = BSL # cmd @ ''{'' @ body @ ''}'', groups = [Some body]\<rparr>
         # re_pieces P False rest"
      using re_pieces_match [OF m len] tk by simp
    show "re_sub P rp bol t fns =
         (case run_repl rp \<lparr>group0 = BSL # cmd @ ''{'' @ body @ ''}'', groups = [Some body]\<rparr> fns of
            (out, fns') \<Rightarrow>
              (case re_sub P rp False rest fns' of (out', fns'') \<Rightarrow> (out @ out', fns'')))" for rp fns
      using re_sub_match [OF m len, of rp fns] tk by simp
  qed
qed

lemma command_pieces_rebuild:
  "rebuild group0 (re_pieces (command_regex cmd 1) bol t) = t"
proof (induction "length t" arbitrary: t bol rule: less_induct)
  case less
  show ?case
  proof (cases rule: command_pieces_cases [of t cmd bol])
    case empty
    then show ?thesis by simp
  next
    case (copy c cs)
    with less [of cs "c = NL"] show ?thesis by simp
  next
    case (command body rest)
    with less [of rest False] show ?thesis by simp
  qed
qed

lemma command_pieces_found:
  "m \<in> set (found (re_pieces (command_regex cmd 1) bol t)) \<Longrightarrow>
   \<exists>body. group0 m = BSL # cmd @ ''{'' @ body @ ''}'' \<and> groups m = [Some body]
     \<and> CHR ''}'' \<notin> set body \<and> NL \<notin> set body"
proof (induction "length t" arbitrary: t bol rule: less_induct)
  case less
  show ?case
  proof (cases rule: command_pieces_cases [of t cmd bol])
    case empty
    with less.prems show ?thesis by simp
  next
    case (copy c cs)
    with less.hyps [of cs "c = NL"] less.prems show ?thesis by simp
  next
    case (command body rest)
    with less.hyps [of rest False] less.prems show ?thesis by auto
  qed
qed

lemma footnote_sub_pieces:
  "re_sub (command_regex cmd 1) (Callback footnote_replace) bol t fns =
     (rebuild (\<lambda>m. '' [#]_'') (re_pieces (command_regex cmd 1) bol t),
      fns @ map (\<lambda>m. ''.. [#] '' @ group_text m 1) (found (re_pieces (command_regex cmd 1) bol t)))"
proof (induction "length t" arbitrary: t bol fns rule: less_induct)
  case less
  show ?case
  proof (cases rule: command_pieces_cases [of t cmd bol])
    case empty
    then show ?thesis by simp
  next
    case (copy c cs)
    with less [of cs "c = NL" fns] show ?thesis by simp
  next
    case (command body rest)
    with less [of rest False "fns @ [''.. [#] '' @ body]"] show ?thesis
      by (simp add: footnote_replace_def)
  qed
qed

lemma apply_rules_pure:
  assumes "\<And>p r m f. (p, r) \<in> set rs \<Longrightarrow> run_repl r m f = (fst (run_repl r m []), f)"
  shows "apply_rules rs t fns = (fst (apply_rules rs t []), fns)"
  using assms
proof (induction rs arbitrary: t)
  case Nil
  show ?case by simp
next
  case (Cons pr rs)
  obtain p r where pr: "pr = (p, r)" by (cases pr)
  have g: "run_repl r m f = (fst (run_repl r m []), f)" for m f
    using Cons.prems [of p r m f] pr by simp
  have step: "re_sub p r True t f = (fst (re_sub p r True t []), f)" for f
    by (rule re_sub_pure [where g = "\<lambda>m. fst (run_repl r m [])"]) (rule g)
  obtain t1 f1 where t1: "re_sub p r True t [] = (t1, f1)"
    by (cases "re_sub p r True t []")
  with step [of "[]"] have f1: "f1 = []"
    by (metis snd_conv)
  from step [of fns] t1 have t1': "re_sub p r True t fns = (t1, fns)"
    by simp
  have "apply_rules rs t1 fns = (fst (apply_rules rs t1 []), fns)"
    using Cons.prems by (intro Cons.IH) auto
  then show ?case
    by (simp add: pr t1 t1' f1)
qed

lemma apply_rules_pure_snd:
  assumes "\<And>p r m f. (p, r) \<in> set rs \<Longrightarrow> run_repl r m f = (fst (run_repl r m []), f)"
  shows "snd (apply_rules rs t fns) = fns"
proof -
  have "apply_rules rs t fns = (fst (apply_rules rs t []), fns)"
    by (rule apply_rules_pure) (rule assms)
  then show ?thesis
    by (cases "apply_rules rs t fns") simp
qed

lemma apply_rules_pure_fst:
  assumes "\<And>p r m f. (p, r) \<in> set rs \<Longrightarrow> run_repl r m f = (fst (run_repl r m []), f)"
  shows "fst (apply_rules rs t fns) = fst (apply_rules rs t [])"
proof -
  have "apply_rules rs t fns = (fst (apply_rules rs t []), fns)"
    by (rule apply_rules_pure) (rule assms)
  then show ?thesis
    by (cases "apply_rules rs t fns") simp
qed

lemma pure_rules:
  "(p, r) \<in> set (take 12 replace_spec) \<Longrightarrow> run_repl r m f = (fst (run_repl r m []), f)"
  "(p, r) \<in> set (drop 13 replace_spec) \<Longrightarrow> run_repl r m f = (fst (run_repl r m []), f)"
  by (auto simp: replace_spec_def eval_nat_numeral)

lemma mid_rule:
  "drop 12 replace_spec =
     (command_regex ''footnote'' 1, Callback footnote_replace) # drop 13 replace_spec"
  by (simp add: replace_spec_def eval_nat_numeral)

lemma convert_text_footnotes:
  "convert_text file_text footnotes =
     (fst (apply_rules (drop 13 replace_spec)
             (rebuild (\<lambda>m. '' [#]_'')
                (re_pieces (command_regex ''footnote'' 1) True
                   (fst (apply_rules (take 12 replace_spec) file_text [])))) [])
      @ [NL, NL] @
      join [NL] (map (\<lambda>m. ''.. [#] '' @ group_text m 1)
        (found (re_pieces (command_regex ''footnote'' 1) True
                  (fst (apply_rules (take 12 replace_spec) file_text []))))),
      map (\<lambda>m. ''.. [#] '' @ group_text m 1)
        (found (re_pieces (command_regex ''footnote'' 1) True
                  (fst (apply_rules (take 12 replace_spec) file_text [])))))"
proof -
  have "snd (apply_rules (take 12 replace_spec) file_text []) = []"
    by (rule apply_rules_pure_snd) (rule pure_rules(1))
  then obtain t12 where a: "apply_rules (take 12 replace_spec) file_text [] = (t12, [])"
    by (cases "apply_rules (take 12 replace_spec) file_text []") auto
  let ?ps = "re_pieces (command_regex ''footnote'' 1) True t12"
  let ?notes = "map (\<lambda>m. ''.. [#] '' @ group_text m 1) (found ?ps)"
  let ?marked = "rebuild (\<lambda>m. '' [#]_'') ?ps"
  have b: "apply_rules (drop 12 replace_spec) t12 [] = apply_rules (drop 13 replace_spec) ?marked ?notes"
    by (simp only: mid_rule apply_rules.simps footnote_sub_pieces prod.case append_Nil)
  obtain t17 f17 where c0: "apply_rules (drop 13 replace_spec) ?marked [] = (t17, f17)"
    by (cases "apply_rules (drop 13 replace_spec) ?marked []")
  have "snd (apply_rules (drop 13 replace_spec) ?marked ?notes) = ?notes"
    by (rule apply_rules_pure_snd) (rule pure_rules(2))
  moreover have "fst (apply_rules (drop 13 replace_spec) ?marked ?notes) =
      fst (apply_rules (drop 13 replace_spec) ?marked [])"
    by (rule apply_rules_pure_fst) (rule pure_rules(2))
  ultimately have c: "apply_rules (drop 13 replace_spec) ?marked ?notes = (t17, ?notes)"
    using c0 by (cases "apply_rules (drop 13 replace_spec) ?marked ?notes") simp
  show ?thesis
    using a b c c0
    by (simp add: convert_text_def apply_rules_split [of file_text "[]" 12])
qed

lemma rst_sections_loop_independent:
  "map snd (fst (rst_sections_loop files acc)) = map (\<lambda>f. fst (convert_text (snd f) [])) files"
proof (induction files arbitrary: acc)
  case Nil
  show ?case by simp
next
  case (Cons f files)
  obtain name t where f: "f = (name, t)" by (cases f)
  obtain out acc' where c: "convert_text t [] = (out, acc')"
    by (cases "convert_text t []")
  then have c': "convert_text t acc = (out, acc')"
    by (simp add: convert_text_def)
  obtain written acc'' where l: "rst_sections_loop files acc' = (written, acc'')"
    by (cases "rst_sections_loop files acc'")
  from Cons [of acc'] l have "map snd written = map (\<lambda>f. fst (convert_text (snd f) [])) files"
    by simp
  then show ?case
    by (simp add: f c c' l)
qed


text \<open>
  C1, as stated, fails. The file \<^verbatim>\<open>\section{Intro\footnote{x}}\<close> contains one footnote
  command, whether the occurrences are counted as matches of the footnote pattern or as
  occurrences of \<^verbatim>\<open>\footnote{\<close>. The heading rule, applied before the footnote rule, takes
  the text up to the first closing brace as the heading and puts the underline behind it,
  so that a newline stands between the command and its brace when the footnote rule runs.
  The output has no marker and no endnote.
\<close>

theorem footnote_in_heading_counterexample:
  "length (found (re_pieces (command_regex ''footnote'' 1) True
             (BSL # ''section{Intro'' @ BSL # ''footnote{x}}''))) = 1
   \<and> py_count (BSL # ''section{Intro'' @ BSL # ''footnote{x}}'') (BSL # ''footnote{'') = 1
   \<and> convert_text (BSL # ''section{Intro'' @ BSL # ''footnote{x}}'') [] =
       (''Intro'' @ BSL # ''footnote{x'' @ [NL] @ ''================}'' @ [NL, NL], [])
   \<and> py_count (fst (convert_text (BSL # ''section{Intro'' @ BSL # ''footnote{x}}'') [])) '' [#]_'' = 0"
  by code_simp

text \<open>
  C1, amended. Let \<open>text12\<close> be the file after the twelve rules that precede the footnote
  rule, which is entry 13 of the table, and let it be cut into the characters the footnote
  rule copies and the matches it replaces. The pieces make up \<open>text12\<close>; every match is
  \<^verbatim>\<open>\footnote{\<close>, a body without closing brace and without newline, and \<^verbatim>\<open>}\<close>. The
  output of the converter is \<open>text12\<close> with the marker \<^verbatim>\<open> [#]_\<close> in the place of every match,
  rewritten by the four later rules, then two newlines, then one endnote \<^verbatim>\<open>.. [#] body\<close>
  for every match, in the order of the matches, joined by newlines: as many endnotes as
  markers put in, each belonging to one of them. The footnote list that a file starts with
  is of no effect (it is cleared), and each file of a run is converted as if it were the
  only one.
\<close>

theorem footnotes_follow_matches:
  "rebuild group0 (re_pieces (command_regex ''footnote'' 1) True
       (fst (apply_rules (take 12 replace_spec) file_text []))) =
     fst (apply_rules (take 12 replace_spec) file_text [])
   \<and> (\<forall>m \<in> set (found (re_pieces (command_regex ''footnote'' 1) True
                        (fst (apply_rules (take 12 replace_spec) file_text [])))).
        \<exists>body. group0 m = BSL # ''footnote{'' @ body @ ''}'' \<and> group_text m 1 = body
          \<and> CHR ''}'' \<notin> set body \<and> NL \<notin> set body)
   \<and> replace_spec ! 12 = (command_regex ''footnote'' 1, Callback footnote_replace)
   \<and> convert_text file_text footnotes =
     (fst (apply_rules (drop 13 replace_spec)
             (rebuild (\<lambda>m. '' [#]_'')
                (re_pieces (command_regex ''footnote'' 1) True
                   (fst (apply_rules (take 12 replace_spec) file_text [])))) [])
      @ [NL, NL] @
      join [NL] (map (\<lambda>m. ''.. [#] '' @ group_text m 1)
        (found (re_pieces (command_regex ''footnote'' 1) True
                  (fst (apply_rules (take 12 replace_spec) file_text []))))),
      map (\<lambda>m. ''.. [#] '' @ group_text m 1)
        (found (re_pieces (command_regex ''footnote'' 1) True
                  (fst (apply_rules (take 12 replace_spec) file_text [])))))
   \<and> map snd (create_rst_sections files) = map (\<lambda>f. fst (convert_text (snd f) [])) files"
proof (intro conjI ballI)
  fix m
  assume "m \<in> set (found (re_pieces (command_regex ''footnote'' 1) True
                        (fst (apply_rules (take 12 replace_spec) file_text []))))"
  from command_pieces_found [OF this]
  obtain body where "group0 m = BSL # ''footnote{'' @ body @ ''}''" "groups m = [Some body]"
    "CHR ''}'' \<notin> set body" "NL \<notin> set body"
    by auto
  then show "\<exists>body. group0 m = BSL # ''footnote{'' @ body @ ''}'' \<and> group_text m 1 = body
          \<and> CHR ''}'' \<notin> set body \<and> NL \<notin> set body"
    by (intro exI [of _ body]) simp
next
  show "replace_spec ! 12 = (command_regex ''footnote'' 1, Callback footnote_replace)"
    by (simp add: replace_spec_def eval_nat_numeral)
qed (simp_all only: command_pieces_rebuild convert_text_footnotes create_rst_sections_def
      rst_sections_loop_independent)

theorem footnotes_follow_matches_witness:
  "convert_text (''a'' @ BSL # ''footnote{x} b'' @ BSL # ''footnote{y_z} c'') [''.. [#] old''] =
     (''a [#]_ b [#]_ c'' @ [NL, NL] @ ''.. [#] x'' @ [NL] @ ''.. [#] y_z'',
      [''.. [#] x'', ''.. [#] y_z''])
   \<and> map snd (create_rst_sections
        [(''a.tex'', ''x'' @ BSL # ''footnote{n}''), (''b.tex'', ''y'')]) =
     [''x [#]_'' @ [NL, NL] @ ''.. [#] n'', ''y'' @ [NL, NL]]"
proof -
  let ?inp = "''a'' @ BSL # ''footnote{x} b'' @ BSL # ''footnote{y_z} c''"
  have e1: "fst (apply_rules (take 12 replace_spec) ?inp []) = ?inp"
    by code_simp
  have e2: "re_pieces (command_regex ''footnote'' 1) True ?inp =
      [Copied CHR ''a'',
       Replaced \<lparr>group0 = BSL # ''footnote{x}'', groups = [Some ''x'']\<rparr>,
       Copied CHR '' '', Copied CHR ''b'',
       Replaced \<lparr>group0 = BSL # ''footnote{y_z}'', groups = [Some ''y_z'']\<rparr>,
       Copied CHR '' '', Copied CHR ''c'']"
    by code_simp
  have e3: "fst (apply_rules (drop 13 replace_spec) ''a [#]_ b [#]_ c'' []) = ''a [#]_ b [#]_ c''"
    by code_simp
  have e4: "fst (convert_text (''x'' @ BSL # ''footnote{n}'') []) = ''x [#]_'' @ [NL, NL] @ ''.. [#] n''"
    by code_simp
  have e5: "fst (convert_text ''y'' []) = ''y'' @ [NL, NL]"
    by code_simp
  note inst = footnotes_follow_matches [of ?inp "[''.. [#] old'']"
        "[(''a.tex'', ''x'' @ BSL # ''footnote{n}''), (''b.tex'', ''y'')]"]
  from inst have c: "convert_text ?inp [''.. [#] old''] =
     (fst (apply_rules (drop 13 replace_spec)
             (rebuild (\<lambda>m. '' [#]_'')
                (re_pieces (command_regex ''footnote'' 1) True
                   (fst (apply_rules (take 12 replace_spec) ?inp [])))) [])
      @ [NL, NL] @
      join [NL] (map (\<lambda>m. ''.. [#] '' @ group_text m 1)
        (found (re_pieces (command_regex ''footnote'' 1) True
                  (fst (apply_rules (take 12 replace_spec) ?inp []))))),
      map (\<lambda>m. ''.. [#] '' @ group_text m 1)
        (found (re_pieces (command_regex ''footnote'' 1) True
                  (fst (apply_rules (take 12 replace_spec) ?inp [])))))"
    by blast
  have c': "convert_text ?inp [''.. [#] old''] =
     (''a [#]_ b [#]_ c'' @ [NL, NL] @ ''.. [#] x'' @ [NL] @ ''.. [#] y_z'',
      [''.. [#] x'', ''.. [#] y_z''])"
    unfolding c e1 e2 using e3 by simp
  from inst have "map snd (create_rst_sections
        [(''a.tex'', ''x'' @ BSL # ''footnote{n}''), (''b.tex'', ''y'')]) =
      map (\<lambda>f. fst (convert_text (snd f) []))
        [(''a.tex'', ''x'' @ BSL # ''footnote{n}''), (''b.tex'', ''y'')]"
    by blast
  with e4 e5 have l: "map snd (create_rst_sections
        [(''a.tex'', ''x'' @ BSL # ''footnote{n}''), (''b.tex'', ''y'')]) =
     [''x [#]_'' @ [NL, NL] @ ''.. [#] n'', ''y'' @ [NL, NL]]"
    by simp
  show ?thesis
    using c' l by blast
qed

subsection \<open>The walk to the repository root\<close>

lemma find_git_dir_sound:
  assumes ret: "find_git_dir ex d = Some r"
  shows "ex (joinpath r ''.git'') \<and> (\<exists>k\<le>length d. r = take k d)"
proof (rule find_git_dir.raw_induct
    [where P = "\<lambda>ex d r. ex (joinpath r ''.git'') \<and> (\<exists>k\<le>length d. r = take k d)", OF _ ret])
  fix f ex cur r
  assume IH: "\<And>ex cur r. f ex cur = Some r \<Longrightarrow>
      ex (joinpath r ''.git'') \<and> (\<exists>k\<le>length cur. r = take k cur)"
    and eq: "(if \<not> ex (joinpath cur ''.git'') then f ex (parent cur) else Some cur) = Some r"
  show "ex (joinpath r ''.git'') \<and> (\<exists>k\<le>length cur. r = take k cur)"
  proof (cases "ex (joinpath cur ''.git'')")
    case True
    with eq have "r = cur" by simp
    with True show ?thesis by auto
  next
    case False
    with eq have "f ex (parent cur) = Some r" by simp
    from IH [OF this] obtain k where
      m: "ex (joinpath r ''.git'')" and k: "k \<le> length (parent cur)" "r = take k (parent cur)"
      by blast
    from k(1) have le1: "k \<le> length cur - 1"
      by (simp add: parent_def)
    then have le: "k \<le> length cur"
      by simp
    from le1 have "cur = [] \<or> k < length cur"
      by (cases cur) auto
    then have "take k (parent cur) = take k cur"
      by (auto simp: parent_def take_butlast)
    with k(2) le have "k \<le> length cur" "r = take k cur"
      by simp_all
    with m show ?thesis by blast
  qed
qed

lemma find_git_dir_finds:
  "k \<le> length d \<Longrightarrow> ex (joinpath (take k d) ''.git'') \<Longrightarrow> \<exists>r. find_git_dir ex d = Some r"
proof (induction "length d - k" arbitrary: d)
  case 0
  then have "take k d = d" by simp
  with 0 show ?case by (subst find_git_dir.simps) simp
next
  case (Suc n)
  show ?case
  proof (cases "ex (joinpath d ''.git'')")
    case True
    then show ?thesis by (subst find_git_dir.simps) simp
  next
    case False
    from Suc.hyps(2) Suc.prems have lt: "k < length d" by simp
    then have "n = length (parent d) - k" "k \<le> length (parent d)"
      using Suc.hyps(2) by (simp_all add: parent_def)
    moreover from lt have "take k (parent d) = take k d"
      by (simp add: parent_def take_butlast)
    ultimately have "\<exists>r. find_git_dir ex (parent d) = Some r"
      using Suc.hyps(1) [of "parent d"] Suc.prems(2) by simp
    with False show ?thesis by (subst find_git_dir.simps) simp
  qed
qed

text \<open>
  C9. The ancestors of a directory \<open>d\<close>, itself included, are the paths \<open>take k d\<close> with
  \<open>k \<le> length d\<close>. If one of them contains the marker directory \<^verbatim>\<open>.git\<close>, the upward
  walk of the root locator ends, at an ancestor that contains the marker; if none does, the
  walk never ends: the root of the file system is its own parent and the loop has no other
  exit.
\<close>

theorem find_git_dir_terminates_iff:
  "(if \<exists>k\<le>length d. ex (joinpath (take k d) ''.git'')
    then \<exists>r. find_git_dir ex d = Some r \<and> ex (joinpath r ''.git'') \<and> (\<exists>k\<le>length d. r = take k d)
    else find_git_dir ex d = None)
   \<and> parent [] = []"
proof -
  have "find_git_dir ex d = None" if "\<not> (\<exists>k\<le>length d. ex (joinpath (take k d) ''.git''))"
  proof (cases "find_git_dir ex d")
    case None
    then show ?thesis .
  next
    case (Some r)
    from find_git_dir_sound [OF Some] that show ?thesis by blast
  qed
  moreover have "\<exists>r. find_git_dir ex d = Some r \<and> ex (joinpath r ''.git'') \<and> (\<exists>k\<le>length d. r = take k d)"
    if "\<exists>k\<le>length d. ex (joinpath (take k d) ''.git'')"
  proof -
    from that obtain r where "find_git_dir ex d = Some r"
      using find_git_dir_finds by blast
    with find_git_dir_sound [OF this] show ?thesis by blast
  qed
  ultimately show ?thesis by (simp add: parent_def)
qed


theorem find_git_dir_terminates_iff_witness:
  "(\<exists>r. find_git_dir (path_exists (posix_world [] None)) [''repo'', ''papers'', ''221_jessurun''] = Some r
        \<and> r = [''repo''])
   \<and> find_git_dir (\<lambda>p. False) [''home'', ''user''] = None"
proof -
  let ?ex = "path_exists (posix_world [] None)"
  let ?d = "[''repo'', ''papers'', ''221_jessurun'']"
  have "1 \<le> length ?d \<and> ?ex (joinpath (take 1 ?d) ''.git'')"
    by (simp add: posix_world_def joinpath_def)
  then have "\<exists>k\<le>length ?d. ?ex (joinpath (take k ?d) ''.git'')"
    by blast
  with find_git_dir_terminates_iff [of ?d ?ex]
  obtain r k where r: "find_git_dir ?ex ?d = Some r" "?ex (joinpath r ''.git'')"
    by auto
  from r(2) have "r = [''repo'']"
    by (auto simp: posix_world_def joinpath_def)
  moreover have "find_git_dir (\<lambda>p. False) [''home'', ''user''] = None"
    using find_git_dir_terminates_iff [of "[''home'', ''user'']" "\<lambda>p. False"] by simp
  ultimately show ?thesis using r(1) by simp
qed


subsection \<open>Remote sync and the build\<close>

text \<open>
  C6. With \<^verbatim>\<open>git\<close> installed: when the remote \<^verbatim>\<open>overleaf\<close> is not among the configured remotes
  and the variable \<^verbatim>\<open>OVERLEAF_CURRENT_REPO\<close> is unset, the sync fails with the error message
  "Must fetch from overleaf, but remote was not set!" and the only process started before
  that is the listing of the remotes, so neither the fetch nor a checkout has run. When the
  remote is configured, making sure of it raises no error, whatever the environment holds.
\<close>

theorem sync_fails_fast_without_remote:
  assumes "''git'' \<in> set (programs w)"
  shows "(''overleaf'' \<notin> set (py_split (stdout_of w [''git'', ''remote'']))
            \<and> environ w ''OVERLEAF_CURRENT_REPO'' = None \<longrightarrow>
          sync_overleaf w rootpath =
            ([Spawn [''git'', ''remote''] (Some rootpath)],
             Inl (ValueError ''Must fetch from overleaf, but remote was not set!'')))
       \<and> (''overleaf'' \<in> set (py_split (stdout_of w [''git'', ''remote''])) \<longrightarrow>
          ensure_overleaf_remote_exists w rootpath =
            ([Spawn [''git'', ''remote''] (Some rootpath)], Inr ()))"
  using assms
  by (simp add: sync_overleaf_def ensure_overleaf_remote_exists_def subprocess_run_def
      argv_of_def bind_io_def)


theorem sync_fails_fast_without_remote_witness:
  "sync_overleaf (posix_world (''origin'' @ [NL]) None) [''repo''] =
     ([Spawn [''git'', ''remote''] (Some [''repo''])],
      Inl (ValueError ''Must fetch from overleaf, but remote was not set!''))
   \<and> ensure_overleaf_remote_exists (posix_world (''origin'' @ [NL] @ ''overleaf'' @ [NL]) None) [''repo''] =
     ([Spawn [''git'', ''remote''] (Some [''repo''])], Inr ())"
  using sync_fails_fast_without_remote [of "posix_world (''origin'' @ [NL]) None" "[''repo'']"]
    sync_fails_fast_without_remote
      [of "posix_world (''origin'' @ [NL] @ ''overleaf'' @ [NL]) None" "[''repo'']"]
  by (simp add: posix_world_def py_split_def is_space_def)


text \<open>
  C3. What the code does when the remote is missing and the variable holds a location: it
  hands \<^verbatim>\<open>_print_and_run\<close> one string, so the tuple that \<^verbatim>\<open>subprocess.run\<close> receives has a
  single item, the whole command line, and that item is the name of the program to execute.
  Unless a program of that name exists, no process is started, the call raises
  \<^verbatim>\<open>FileNotFoundError\<close>, no remote is registered and the fetch is never reached.
\<close>

theorem remote_add_runs_one_word:
  assumes "''git'' \<in> set (programs w)"
    and "''overleaf'' \<notin> set (py_split (stdout_of w [''git'', ''remote'']))"
    and "environ w ''OVERLEAF_CURRENT_REPO'' = Some repo_name" and "repo_name \<noteq> []"
    and "''git remote add overleaf '' @ repo_name \<notin> set (programs w)"
  shows "sync_overleaf w rootpath =
     ([Spawn [''git'', ''remote''] (Some rootpath),
       Print ''Overleaf remote didn't already exist, adding now'',
       Print (''git remote add overleaf '' @ repo_name)],
      Inl (FileNotFoundError (''git remote add overleaf '' @ repo_name)))"
  using assms
  by (simp add: sync_overleaf_def ensure_overleaf_remote_exists_def subprocess_run_def
      argv_of_def bind_io_def print_and_run_def print_def)


theorem remote_add_runs_one_word_witness:
  "sync_overleaf (posix_world (''origin'' @ [NL]) (Some ''git@example.com:user/repo.git'')) [''repo''] =
     ([Spawn [''git'', ''remote''] (Some [''repo'']),
       Print ''Overleaf remote didn't already exist, adding now'',
       Print ''git remote add overleaf git@example.com:user/repo.git''],
      Inl (FileNotFoundError ''git remote add overleaf git@example.com:user/repo.git''))"
  using remote_add_runs_one_word
    [of "posix_world (''origin'' @ [NL]) (Some ''git@example.com:user/repo.git'')"
        "''git@example.com:user/repo.git''" "[''repo'']"]
  by (simp add: posix_world_def py_split_def is_space_def)


text \<open>
  C4. What the build invoker starts: with \<^verbatim>\<open>shell=True\<close> and a list, the process is the shell
  with the interpreter as its whole command line; the path of the build script and the
  paper's relative path \<^verbatim>\<open>papers/221_jessurun\<close> follow as parameters of the shell, in the
  located root as working directory. The second process is \<^verbatim>\<open>git reset\<close>.
\<close>

theorem build_paper_shell_argv:
  assumes "''/bin/sh'' \<in> set (programs w)" and "''git'' \<in> set (programs w)"
  shows "build_paper w rootpath =
     ([Spawn [''/bin/sh'', ''-c'', sys_executable w,
              path_str (rootpath @ [''publisher'', ''build_paper.py'']), ''papers/221_jessurun'']
         (Some rootpath),
       Spawn [''git'', ''reset''] (Some rootpath)],
      Inr ())"
  using assms
  by (simp add: build_paper_def subprocess_run_def argv_of_def bind_io_def paper_id_def)


theorem build_paper_shell_argv_witness:
  "build_paper (posix_world [] None) [''repo''] =
     ([Spawn [''/bin/sh'', ''-c'', ''/usr/bin/python3'', ''/repo/publisher/build_paper.py'',
              ''papers/221_jessurun''] (Some [''repo'']),
       Spawn [''git'', ''reset''] (Some [''repo''])],
      Inr ())"
  using build_paper_shell_argv [of "posix_world [] None" "[''repo'']"]
  by (simp add: posix_world_def path_str_def)


end
